theory Spec2Isabelle
  imports Complex_Main
begin

section \<open>Data model\<close>

text \<open>
  The module-level state of \<^verbatim>\<open>server.py\<close>: the handle of the running Tor process with
  its ports and start time, the resolved browser paths, the result set of the last search
  and the flag that records a \<^verbatim>\<open>fetch_pages\<close> call. Times are the seconds of
  \<^verbatim>\<open>time.time()\<close>, taken as real numbers. A string is a list of characters; Python counts
  code points, so one \<^typ>\<open>char\<close> stands for one code point.
\<close>

record item =
  index :: int
  title :: string
  url :: string
  snippet :: string

record state =
  tor_process :: "nat option"
  tor_socks_port :: "int option"
  tor_control_port :: "int option"
  tor_start_time :: "real option"
  tbb_path :: "string option"
  tbb_profile_path :: "string option"
  last_search_results :: "item list"
  fetch_pages_called :: bool

text \<open>
  Every \<^verbatim>\<open>raise\<close> of the tools is a constructor. \<open>Too_many_indexes\<close> carries the
  \<^verbatim>\<open>len(indexes)\<close> that the message prints, \<open>Invalid_index\<close> the offending index and
  \<^verbatim>\<open>sorted(valid_indexes)\<close>, \<open>Fetch_failed\<close> the error type and message of the outcome.
  \<open>External\<close> is an exception that comes out of a collaborator (the Tor launcher, the
  search provider, the browser backend) with its message.
\<close>

datatype error =
    At_least_one_query
  | Max_queries
  | No_search_results
  | Already_fetched
  | Tor_timed_out
  | Too_many_indexes nat
  | Invalid_index int "int list"
  | No_valid_urls
  | Tbb_not_found
  | Profile_not_found
  | Fetch_failed string string
  | No_content
  | External string

text \<open>
  The value stored for one URL by the fetch orchestrator: a text, or a dictionary with the
  keys \<^verbatim>\<open>error\<close> and \<^verbatim>\<open>message\<close>.
\<close>

datatype outcome = Content string | Failure string string

type_synonym hit = "(string \<times> string) list"

definition dict_get :: "hit \<Rightarrow> string \<Rightarrow> string \<Rightarrow> string" where
  "dict_get r k d = (case map_of r k of None \<Rightarrow> d | Some v \<Rightarrow> v)"

section \<open>Tor lifecycle\<close>

text \<open>
  What \<^verbatim>\<open>_start_tor\<close> finds outside the program: the resolved bundle and profile paths
  (\<open>None\<close> when the resolver returns \<^verbatim>\<open>None\<close>), the process handle or the exception of
  \<^verbatim>\<open>launch_tbb_tor_with_stem\<close>, the two port constants of the driver library and the
  clock at the moment the state is stored. The imports of the driver library are taken to
  succeed.
\<close>

record start_env =
  resolved_tbb_path :: "string option"
  resolved_profile_path :: "string option"
  launched :: "string + nat"
  stem_socks_port :: int
  stem_control_port :: int
  started_at :: real

definition falsy :: "string option \<Rightarrow> bool" where
  "falsy p = (case p of None \<Rightarrow> True | Some v \<Rightarrow> v = [])"

definition start_tor :: "start_env \<Rightarrow> state \<Rightarrow> error + state" where
  "start_tor e s =
     (if falsy (resolved_tbb_path e) then Inl Tbb_not_found
      else if falsy (resolved_profile_path e) then Inl Profile_not_found
      else case launched e of
             Inl msg \<Rightarrow> Inl (External msg)
           | Inr p \<Rightarrow> Inr (s\<lparr>tor_process := Some p,
                              tor_socks_port := Some (stem_socks_port e),
                              tor_control_port := Some (stem_control_port e),
                              tor_start_time := Some (started_at e),
                              tbb_path := resolved_tbb_path e,
                              tbb_profile_path := resolved_profile_path e\<rparr>))"

text \<open>
  \<^verbatim>\<open>_kill_tor\<close>: an exception of \<^verbatim>\<open>kill()\<close> is swallowed and the four fields are
  cleared in the \<^verbatim>\<open>finally\<close> block, so the outcome of the kill itself does not show.
\<close>

definition kill_tor :: "state \<Rightarrow> state" where
  "kill_tor s =
     (if tor_process s \<noteq> None
      then s\<lparr>tor_process := None, tor_socks_port := None,
              tor_control_port := None, tor_start_time := None\<rparr>
      else s)"

definition is_tor_running :: "state \<Rightarrow> bool" where
  "is_tor_running s = (tor_process s \<noteq> None)"

text \<open>
  \<^verbatim>\<open>_check_tor_timeout\<close>, with the configured keepalive and the reading of the clock as
  arguments.
\<close>

definition check_tor_timeout :: "real \<Rightarrow> real \<Rightarrow> state \<Rightarrow> bool \<times> state" where
  "check_tor_timeout keepalive now s =
     (case (tor_process s, tor_start_time s) of
        (Some p, Some t0) \<Rightarrow>
          if now - t0 > keepalive then (False, kill_tor s) else (True, s)
      | _ \<Rightarrow> (False, s))"

section \<open>Search\<close>

definition truncate_snippet :: "string \<Rightarrow> string" where
  "truncate_snippet b = (if length b > 125 then take 125 b @ ''...'' else b)"

text \<open>
  The variables of the search loop: the set of URLs seen, the global result list as it
  grows, the next index and the groups for the output.
\<close>

record search_acc =
  seen_urls :: "string set"
  found :: "item list"
  current_index :: int
  results_by_query :: "(string \<times> item list) list"

text \<open>The inner loop over the hits of one query; the second component is \<^verbatim>\<open>query_results\<close>.\<close>

fun scan_hits :: "hit list \<Rightarrow> search_acc \<times> item list \<Rightarrow> search_acc \<times> item list" where
  "scan_hits [] aq = aq"
| "scan_hits (r # rs) (a, qr) =
     (let u = dict_get r ''href'' '''' in
      if u \<in> seen_urls a then scan_hits rs (a, qr)
      else
        let it = \<lparr>index = current_index a, title = dict_get r ''title'' '''', url = u,
                  snippet = truncate_snippet (dict_get r ''body'' '''')\<rparr>
        in scan_hits rs
             (a\<lparr>seen_urls := insert u (seen_urls a), found := found a @ [it],
                current_index := current_index a + 1\<rparr>, qr @ [it]))"

text \<open>
  The outer loop. The provider is asked once per query; its answer to the \<open>k\<close>-th call is
  a list of hits or an exception. An exception leaves the loop with what was stored so
  far.
\<close>

fun scan_queries ::
  "(nat \<Rightarrow> string \<Rightarrow> string + hit list) \<Rightarrow> nat \<Rightarrow> string list \<Rightarrow> search_acc
     \<Rightarrow> string option \<times> search_acc" where
  "scan_queries ddgs_text k [] a = (None, a)"
| "scan_queries ddgs_text k (q # qs) a =
     (case ddgs_text k q of
        Inl msg \<Rightarrow> (Some msg, a)
      | Inr hits \<Rightarrow>
          (case scan_hits hits (a, []) of
             (a', qr) \<Rightarrow>
               scan_queries ddgs_text (Suc k) qs
                 (a'\<lparr>results_by_query := results_by_query a' @ [(q, qr)]\<rparr>)))"

record search_env =
  tor_start :: start_env
  ddgs_init :: "string option"
  ddgs_text :: "nat \<Rightarrow> string \<Rightarrow> string + hit list"

definition stop_if_running :: "state \<Rightarrow> state" where
  "stop_if_running s = (if is_tor_running s then kill_tor s else s)"

text \<open>
  \<^verbatim>\<open>get_sources\<close>. The value returned is the list of groups, one per query, from which
  the Markdown text is printed.
\<close>

definition get_sources ::
  "search_env \<Rightarrow> string list \<Rightarrow> state \<Rightarrow> (error + (string \<times> item list) list) \<times> state" where
  "get_sources e queries s =
     (if queries = [] then (Inl At_least_one_query, s)
      else if length queries > 3 then (Inl Max_queries, s)
      else
        let s1 = stop_if_running s in
        case start_tor (tor_start e) s1 of
          Inl err \<Rightarrow> (Inl err, kill_tor s1)
        | Inr s2 \<Rightarrow>
            (case ddgs_init e of
               Some msg \<Rightarrow> (Inl (External msg), kill_tor s2)
             | None \<Rightarrow>
                 (case scan_queries (ddgs_text e) 0 queries
                         \<lparr>seen_urls = {}, found = [], current_index = 1,
                          results_by_query = []\<rparr> of
                    (Some msg, a) \<Rightarrow>
                      (Inl (External msg), kill_tor (s2\<lparr>last_search_results := found a\<rparr>))
                  | (None, a) \<Rightarrow>
                      (Inr (results_by_query a),
                       s2\<lparr>last_search_results := found a,
                          fetch_pages_called := False\<rparr>))))"

section \<open>Fetching by index\<close>

text \<open>
  The backend's \<^verbatim>\<open>fetch_urls\<close> as the two fetch tools see it: from the state and the
  URLs, a dictionary of outcomes, or an exception with its message.
\<close>

type_synonym backend_fetch = "state \<Rightarrow> string list \<Rightarrow> string + (string \<rightharpoonup> outcome)"

definition valid_indexes :: "item list \<Rightarrow> int set" where
  "valid_indexes rs = set (map index rs)"

definition sorted_valid_indexes :: "item list \<Rightarrow> int list" where
  "sorted_valid_indexes rs = sort (remdups (map index rs))"

text \<open>The first index of the request that is no valid index, if there is one.\<close>

fun first_invalid :: "int set \<Rightarrow> int list \<Rightarrow> int option" where
  "first_invalid v [] = None"
| "first_invalid v (i # is) = (if i \<notin> v then Some i else first_invalid v is)"

definition urls_to_fetch :: "item list \<Rightarrow> int list \<Rightarrow> string list" where
  "urls_to_fetch rs indexes = map url (filter (\<lambda>it. index it \<in> set indexes) rs)"

text \<open>
  \<^verbatim>\<open>fetch_pages\<close>, with the configured keepalive and the reading of the clock at the
  timeout check as arguments. The value returned is the list of the selected results, each
  with what the dictionary holds for its URL, from which the text is printed.
\<close>

definition fetch_pages ::
  "real \<Rightarrow> real \<Rightarrow> backend_fetch \<Rightarrow> int list \<Rightarrow> state
     \<Rightarrow> (error + (item \<times> outcome option) list) \<times> state" where
  "fetch_pages keepalive now fetch_urls indexes s =
     (if last_search_results s = [] then (Inl No_search_results, s)
      else if fetch_pages_called s then (Inl Already_fetched, s)
      else case check_tor_timeout keepalive now s of
        (False, s1) \<Rightarrow> (Inl Tor_timed_out, s1)
      | (True, s1) \<Rightarrow>
          if length indexes > 5 then (Inl (Too_many_indexes (length indexes)), s1)
          else case first_invalid (valid_indexes (last_search_results s1)) indexes of
            Some i \<Rightarrow>
              (Inl (Invalid_index i (sorted_valid_indexes (last_search_results s1))), s1)
          | None \<Rightarrow>
              let urls = urls_to_fetch (last_search_results s1) indexes in
              if urls = [] then (Inl No_valid_urls, s1)
              else
                let s2 = s1\<lparr>fetch_pages_called := True\<rparr> in
                case fetch_urls s2 urls of
                  Inl msg \<Rightarrow> (Inl (External msg), kill_tor s2)
                | Inr results \<Rightarrow>
                    (Inr (map (\<lambda>it. (it, results (url it)))
                            (filter (\<lambda>it. index it \<in> set indexes) (last_search_results s2))),
                     kill_tor s2))"

section \<open>Fetching one URL\<close>

text \<open>\<^verbatim>\<open>fetch_specific_page\<close>; the value returned is the text stored for the URL.\<close>

definition fetch_specific_page ::
  "start_env \<Rightarrow> backend_fetch \<Rightarrow> string \<Rightarrow> state \<Rightarrow> (error + string) \<times> state" where
  "fetch_specific_page e fetch_urls u s =
     (let s1 = stop_if_running s in
      case start_tor e s1 of
        Inl err \<Rightarrow> (Inl err, kill_tor s1)
      | Inr s2 \<Rightarrow>
          (case fetch_urls s2 [u] of
             Inl msg \<Rightarrow> (Inl (External msg), kill_tor s2)
           | Inr results \<Rightarrow>
               (case results u of
                  Some (Content c) \<Rightarrow> (Inr c, kill_tor s2)
                | Some (Failure ty msg) \<Rightarrow> (Inl (Fetch_failed ty msg), kill_tor s2)
                | None \<Rightarrow> (Inl No_content, kill_tor s2))))"

section \<open>Sequences of tool calls\<close>

text \<open>
  The three tools run one at a time under \<^verbatim>\<open>_state_lock\<close>. A call carries what the
  world answers during it. The module starts with no process, no results and the flag
  cleared.
\<close>

datatype call =
    Search search_env "string list"
  | Fetch_by_index real backend_fetch "int list"
  | Fetch_direct start_env backend_fetch string

fun perform :: "real \<Rightarrow> call \<Rightarrow> state \<Rightarrow> state" where
  "perform keepalive (Search e queries) s = snd (get_sources e queries s)"
| "perform keepalive (Fetch_by_index now f indexes) s =
     snd (fetch_pages keepalive now f indexes s)"
| "perform keepalive (Fetch_direct e f u) s = snd (fetch_specific_page e f u s)"

fun run :: "real \<Rightarrow> call list \<Rightarrow> state \<Rightarrow> state" where
  "run keepalive [] s = s"
| "run keepalive (c # cs) s = run keepalive cs (perform keepalive c s)"

definition initial_state :: state where
  "initial_state = \<lparr>tor_process = None, tor_socks_port = None, tor_control_port = None,
                     tor_start_time = None, tbb_path = None, tbb_profile_path = None,
                     last_search_results = [], fetch_pages_called = False\<rparr>"

text \<open>
  The errors that \<^verbatim>\<open>fetch_pages\<close> raises before it marks the generation as fetched. A
  call is accepted when it ends otherwise.
\<close>

definition rejection :: "error \<Rightarrow> bool" where
  "rejection e =
     (case e of No_search_results \<Rightarrow> True | Already_fetched \<Rightarrow> True | Tor_timed_out \<Rightarrow> True
      | Too_many_indexes n \<Rightarrow> True | Invalid_index i v \<Rightarrow> True | No_valid_urls \<Rightarrow> True
      | _ \<Rightarrow> False)"

definition accepted :: "(error + 'a) \<times> state \<Rightarrow> bool" where
  "accepted r = (case fst r of Inl e \<Rightarrow> \<not> rejection e | Inr v \<Rightarrow> True)"

section \<open>Sample inputs\<close>

definition sample_start :: start_env where
  "sample_start = \<lparr>resolved_tbb_path = Some ''/opt/tor-browser'',
                    resolved_profile_path = Some ''/opt/tor-browser/profile'',
                    launched = Inr 1, stem_socks_port = 9250, stem_control_port = 9251,
                    started_at = 100\<rparr>"

definition mk_hit :: "string \<Rightarrow> string \<Rightarrow> string \<Rightarrow> hit" where
  "mk_hit t u b = [(''title'', t), (''href'', u), (''body'', b)]"

definition sample_search :: search_env where
  "sample_search = \<lparr>tor_start = sample_start, ddgs_init = None,
       ddgs_text = (\<lambda>k q. Inr [mk_hit ''A'' ''http://a'' ''aa'',
                                 mk_hit ''B'' ''http://b'' ''bb''])\<rparr>"

text \<open>The state after \<open>sample_search\<close> has answered one query.\<close>

definition searched_state :: state where
  "searched_state = \<lparr>tor_process = Some 1, tor_socks_port = Some 9250,
     tor_control_port = Some 9251, tor_start_time = Some 100,
     tbb_path = Some ''/opt/tor-browser'',
     tbb_profile_path = Some ''/opt/tor-browser/profile'',
     last_search_results =
       [\<lparr>index = 1, title = ''A'', url = ''http://a'', snippet = ''aa''\<rparr>,
        \<lparr>index = 2, title = ''B'', url = ''http://b'', snippet = ''bb''\<rparr>],
     fetch_pages_called = False\<rparr>"

definition sample_fetch :: backend_fetch where
  "sample_fetch s urls = Inr (map_of (map (\<lambda>u. (u, Content u)) urls))"

lemmas sample_defs = sample_start_def initial_state_def mk_hit_def sample_search_def
  searched_state_def sample_fetch_def

lemmas op_defs = get_sources_def start_tor_def falsy_def stop_if_running_def
  is_tor_running_def kill_tor_def dict_get_def truncate_snippet_def check_tor_timeout_def
  fetch_pages_def fetch_specific_page_def valid_indexes_def sorted_valid_indexes_def
  urls_to_fetch_def Let_def accepted_def rejection_def

section \<open>The result set as the specification words it\<close>

text \<open>
  The result set of a search, written after the specification: over all hits of all queries
  in order, a hit whose URL was seen before is dropped, and the survivors are numbered from
  1. \<open>provider_hits\<close> is the sequence of hits the provider returned up to its first
  exception.
\<close>

definition href :: "hit \<Rightarrow> string" where
  "href r = dict_get r ''href'' ''''"

fun first_by_url :: "string set \<Rightarrow> hit list \<Rightarrow> hit list" where
  "first_by_url seen [] = []"
| "first_by_url seen (r # rs) =
     (if href r \<in> seen then first_by_url seen rs
      else r # first_by_url (insert (href r) seen) rs)"

definition to_item :: "int \<Rightarrow> hit \<Rightarrow> item" where
  "to_item i r = \<lparr>index = i, title = dict_get r ''title'' '''', url = href r,
                  snippet = truncate_snippet (dict_get r ''body'' '''')\<rparr>"

fun number_from :: "int \<Rightarrow> hit list \<Rightarrow> item list" where
  "number_from i [] = []"
| "number_from i (r # rs) = to_item i r # number_from (i + 1) rs"

fun provider_hits :: "(nat \<Rightarrow> string \<Rightarrow> string + hit list) \<Rightarrow> nat \<Rightarrow> string list \<Rightarrow> hit list" where
  "provider_hits t k [] = []"
| "provider_hits t k (q # qs) =
     (case t k q of Inl msg \<Rightarrow> [] | Inr hs \<Rightarrow> hs @ provider_hits t (Suc k) qs)"

definition returned :: "(error + 'a) \<times> state \<Rightarrow> bool" where
  "returned r = (case fst r of Inl e \<Rightarrow> False | Inr v \<Rightarrow> True)"

definition search_hits :: "search_env \<Rightarrow> string list \<Rightarrow> hit list" where
  "search_hits e qs = provider_hits (ddgs_text e) 0 qs"

definition search_results :: "search_env \<Rightarrow> string list \<Rightarrow> state \<Rightarrow> item list" where
  "search_results e qs s = last_search_results (snd (get_sources e qs s))"

definition two_query_search :: search_env where
  "two_query_search = \<lparr>tor_start = sample_start, ddgs_init = None,
     ddgs_text = (\<lambda>k q. if k = 0
        then Inr [[(''href'', ''u1'')], [(''href'', ''u2'')], [(''href'', ''u3'')],
                  [(''href'', ''u4'')], [(''href'', ''u5'')]]
        else Inr [[(''href'', ''u6'')], [(''href'', ''u2'')], [(''href'', ''u7'')],
                  [(''href'', ''u4'')], [(''href'', ''u8'')]])\<rparr>"

definition is_fetch_by_index :: "call \<Rightarrow> bool" where
  "is_fetch_by_index c = (case c of Fetch_by_index now f xs \<Rightarrow> True | _ \<Rightarrow> False)"

definition empty_search :: search_env where
  "empty_search = \<lparr>tor_start = sample_start, ddgs_init = None, ddgs_text = (\<lambda>k q. Inr [])\<rparr>"

section \<open>The browser driver\<close>

text \<open>
  The driver is outside the program. Its state is the list of open tabs, the current tab
  and the clock; \<open>calls\<close> counts the calls made to it and \<open>peak\<close> records the largest
  number of tabs that were open at once. What the \<open>k\<close>-th call does is given from outside:
  whether it raises, how long it takes, and what it answers.
\<close>

type_synonym handle = nat

record driver_env =
  raises :: "nat \<Rightarrow> string option"
  takes :: "nat \<Rightarrow> real"
  ready_states :: "nat \<Rightarrow> string"
  page_sources :: "nat \<Rightarrow> string"
  connection_errors :: "nat \<Rightarrow> bool"

record world =
  window_handles :: "handle list"
  current_window :: handle
  next_handle :: handle
  clock :: real
  calls :: nat
  peak :: nat

definition driver_call :: "driver_env \<Rightarrow> world \<Rightarrow> world" where
  "driver_call env w = w\<lparr>calls := Suc (calls w), clock := clock w + \<bar>takes env (calls w)\<bar>\<rparr>"

text \<open>\<^verbatim>\<open>driver.current_window_handle\<close>; it raises when the current tab is closed.\<close>

definition current_window_handle :: "driver_env \<Rightarrow> world \<Rightarrow> (string + handle) \<times> world" where
  "current_window_handle env w =
     (let w1 = driver_call env w in
      case raises env (calls w) of
        Some msg \<Rightarrow> (Inl msg, w1)
      | None \<Rightarrow>
          if current_window w1 \<in> set (window_handles w1) then (Inr (current_window w1), w1)
          else (Inl ''no such window'', w1))"

text \<open>\<^verbatim>\<open>driver.execute_script("window.open('');")\<close>\<close>

definition open_window :: "driver_env \<Rightarrow> world \<Rightarrow> (string + unit) \<times> world" where
  "open_window env w =
     (let w1 = driver_call env w in
      case raises env (calls w) of
        Some msg \<Rightarrow> (Inl msg, w1)
      | None \<Rightarrow>
          (Inr (), w1\<lparr>window_handles := window_handles w1 @ [next_handle w1],
                       next_handle := Suc (next_handle w1),
                       peak := max (peak w1) (Suc (length (window_handles w1)))\<rparr>))"

text \<open>\<^verbatim>\<open>driver.window_handles[-1]\<close>\<close>

definition last_window_handle :: "driver_env \<Rightarrow> world \<Rightarrow> (string + handle) \<times> world" where
  "last_window_handle env w =
     (let w1 = driver_call env w in
      case raises env (calls w) of
        Some msg \<Rightarrow> (Inl msg, w1)
      | None \<Rightarrow>
          if window_handles w1 = [] then (Inl ''list index out of range'', w1)
          else (Inr (last (window_handles w1)), w1))"

text \<open>\<^verbatim>\<open>len(driver.window_handles)\<close>\<close>

definition count_window_handles :: "driver_env \<Rightarrow> world \<Rightarrow> (string + nat) \<times> world" where
  "count_window_handles env w =
     (let w1 = driver_call env w in
      case raises env (calls w) of
        Some msg \<Rightarrow> (Inl msg, w1)
      | None \<Rightarrow> (Inr (length (window_handles w1)), w1))"

text \<open>\<^verbatim>\<open>driver.switch_to.window(handle)\<close>; it raises when no such tab is open.\<close>

definition switch_to_window :: "driver_env \<Rightarrow> handle \<Rightarrow> world \<Rightarrow> (string + unit) \<times> world" where
  "switch_to_window env h w =
     (let w1 = driver_call env w in
      case raises env (calls w) of
        Some msg \<Rightarrow> (Inl msg, w1)
      | None \<Rightarrow>
          if h \<in> set (window_handles w1) then (Inr (), w1\<lparr>current_window := h\<rparr>)
          else (Inl ''no such window'', w1))"

text \<open>\<^verbatim>\<open>driver.close()\<close>; a call that raises leaves the tab open.\<close>

definition close_window :: "driver_env \<Rightarrow> world \<Rightarrow> (string + unit) \<times> world" where
  "close_window env w =
     (let w1 = driver_call env w in
      case raises env (calls w) of
        Some msg \<Rightarrow> (Inl msg, w1)
      | None \<Rightarrow>
          if current_window w1 \<in> set (window_handles w1)
          then (Inr (), w1\<lparr>window_handles := removeAll (current_window w1) (window_handles w1)\<rparr>)
          else (Inl ''no such window'', w1))"

text \<open>\<^verbatim>\<open>driver.get(url)\<close>\<close>

definition navigate :: "driver_env \<Rightarrow> string \<Rightarrow> world \<Rightarrow> (string + unit) \<times> world" where
  "navigate env u w =
     (let w1 = driver_call env w in
      case raises env (calls w) of Some msg \<Rightarrow> (Inl msg, w1) | None \<Rightarrow> (Inr (), w1))"

text \<open>\<^verbatim>\<open>driver.execute_script("return document.readyState;")\<close>\<close>

definition ready_state :: "driver_env \<Rightarrow> world \<Rightarrow> (string + string) \<times> world" where
  "ready_state env w =
     (let w1 = driver_call env w in
      case raises env (calls w) of
        Some msg \<Rightarrow> (Inl msg, w1)
      | None \<Rightarrow> (Inr (ready_states env (calls w)), w1))"

text \<open>\<^verbatim>\<open>driver.is_connection_error_page\<close>\<close>

definition is_connection_error_page :: "driver_env \<Rightarrow> world \<Rightarrow> (string + bool) \<times> world" where
  "is_connection_error_page env w =
     (let w1 = driver_call env w in
      case raises env (calls w) of
        Some msg \<Rightarrow> (Inl msg, w1)
      | None \<Rightarrow> (Inr (connection_errors env (calls w)), w1))"

text \<open>\<^verbatim>\<open>driver.page_source\<close>\<close>

definition page_source :: "driver_env \<Rightarrow> world \<Rightarrow> (string + string) \<times> world" where
  "page_source env w =
     (let w1 = driver_call env w in
      case raises env (calls w) of
        Some msg \<Rightarrow> (Inl msg, w1)
      | None \<Rightarrow> (Inr (page_sources env (calls w)), w1))"

text \<open>\<^verbatim>\<open>driver.set_page_load_timeout(page_timeout)\<close>\<close>

definition set_page_load_timeout :: "driver_env \<Rightarrow> world \<Rightarrow> (string + unit) \<times> world" where
  "set_page_load_timeout env w =
     (let w1 = driver_call env w in
      case raises env (calls w) of Some msg \<Rightarrow> (Inl msg, w1) | None \<Rightarrow> (Inr (), w1))"

text \<open>\<^verbatim>\<open>time.sleep(0.5)\<close>\<close>

definition sleep_half :: "world \<Rightarrow> world" where
  "sleep_half w = w\<lparr>clock := clock w + 1 / 2\<rparr>"

section \<open>Dispatching a batch\<close>

text \<open>A dictionary whose order of insertion is kept, as the handles of a batch are.\<close>

fun dict_set :: "'k \<Rightarrow> 'v \<Rightarrow> ('k \<times> 'v) list \<Rightarrow> ('k \<times> 'v) list" where
  "dict_set k v [] = [(k, v)]"
| "dict_set k v (p # ps) = (if fst p = k then (k, v) # ps else p # dict_set k v ps)"

text \<open>
  The tab for the next URL of a batch: the current tab for the first URL, a new tab that
  is opened and switched to for the others. An exception of the driver leaves the batch.
\<close>

definition acquire_tab :: "driver_env \<Rightarrow> bool \<Rightarrow> world \<Rightarrow> (string + handle) \<times> world" where
  "acquire_tab env is_first w =
     (if is_first then current_window_handle env w
      else case open_window env w of
        (Inl msg, w1) \<Rightarrow> (Inl msg, w1)
      | (Inr x, w1) \<Rightarrow>
          (case last_window_handle env w1 of
             (Inl msg, w2) \<Rightarrow> (Inl msg, w2)
           | (Inr h, w2) \<Rightarrow>
               (case switch_to_window env h w2 of
                  (Inl msg, w3) \<Rightarrow> (Inl msg, w3)
                | (Inr y, w3) \<Rightarrow> (Inr h, w3))))"

text \<open>
  The loop of \<^verbatim>\<open>_dispatch_batch\<close> with its two dictionaries; an exception of
  \<^verbatim>\<open>driver.get\<close> is swallowed.
\<close>

fun dispatch_tabs ::
  "driver_env \<Rightarrow> bool \<Rightarrow> string list \<Rightarrow> (handle \<times> string) list \<Rightarrow> (string \<times> real) list \<Rightarrow> world
     \<Rightarrow> (string + (handle \<times> string) list \<times> (string \<times> real) list) \<times> world" where
  "dispatch_tabs env is_first [] tab_url_map tab_dispatch_times w =
     (Inr (tab_url_map, tab_dispatch_times), w)"
| "dispatch_tabs env is_first (u # us) tab_url_map tab_dispatch_times w =
     (case acquire_tab env is_first w of
        (Inl msg, w1) \<Rightarrow> (Inl msg, w1)
      | (Inr h, w1) \<Rightarrow>
          dispatch_tabs env False us (dict_set h u tab_url_map)
            (dict_set u (clock w1) tab_dispatch_times) (snd (navigate env u w1)))"

definition dispatch_batch ::
  "driver_env \<Rightarrow> string list \<Rightarrow> world
     \<Rightarrow> (string + (handle \<times> string) list \<times> (string \<times> real) list) \<times> world" where
  "dispatch_batch env urls w = dispatch_tabs env True urls [] [] w"

section \<open>Collecting a batch\<close>

type_synonym outcomes = "string \<rightharpoonup> outcome"

text \<open>
  \<^verbatim>\<open>tab_url_map[handle]\<close>. The handles asked for are keys of the dictionary; the default
  is the one of \<^verbatim>\<open>tab_url_map.get(handle, "unknown")\<close>.
\<close>

definition url_of :: "(handle \<times> string) list \<Rightarrow> handle \<Rightarrow> string" where
  "url_of tab_url_map h = (case map_of tab_url_map h of Some u \<Rightarrow> u | None \<Rightarrow> ''unknown'')"

definition deadline_exceeded :: "real option \<Rightarrow> world \<Rightarrow> bool" where
  "deadline_exceeded deadline w = (case deadline of None \<Rightarrow> False | Some d \<Rightarrow> clock w > d)"

text \<open>The capture of a loaded page; every exception in it gives a capture error.\<close>

definition capture :: "driver_env \<Rightarrow> string \<Rightarrow> world \<Rightarrow> outcome \<times> world" where
  "capture env u w =
     (case is_connection_error_page env w of
        (Inl msg, w1) \<Rightarrow> (Failure ''capture_error'' msg, w1)
      | (Inr True, w1) \<Rightarrow> (Failure ''connection_error'' (''Site unreachable: '' @ u), w1)
      | (Inr False, w1) \<Rightarrow>
          (case page_source env w1 of
             (Inl msg, w2) \<Rightarrow> (Failure ''capture_error'' msg, w2)
           | (Inr html, w2) \<Rightarrow>
               (if html \<noteq> [] then Content html
                else Failure ''empty_response'' ''No HTML content'', w2)))"

text \<open>The tab is closed if more than one is open; every exception is swallowed.\<close>

definition close_if_many :: "driver_env \<Rightarrow> world \<Rightarrow> world" where
  "close_if_many env w =
     (case count_window_handles env w of
        (Inl msg, w1) \<Rightarrow> w1
      | (Inr n, w1) \<Rightarrow> if n > 1 then snd (close_window env w1) else w1)"

text \<open>
  One pass of the \<^verbatim>\<open>for\<close> loop over a copy of \<open>pending\<close>, in the order of dispatch
  (Python leaves the order of a set open).
\<close>

fun sweep ::
  "driver_env \<Rightarrow> (handle \<times> string) list \<Rightarrow> handle list \<Rightarrow> handle list \<times> outcomes \<times> world
     \<Rightarrow> handle list \<times> outcomes \<times> world" where
  "sweep env tab_url_map [] st = st"
| "sweep env tab_url_map (h # hs) (pending, results, w) =
     (let u = url_of tab_url_map h in
      case switch_to_window env h w of
        (Inl msg, w1) \<Rightarrow>
          sweep env tab_url_map hs
            (removeAll h pending, results(u \<mapsto> Failure ''tab_error'' msg), w1)
      | (Inr x, w1) \<Rightarrow>
          (case ready_state env w1 of
             (Inl msg, w2) \<Rightarrow>
               sweep env tab_url_map hs
                 (removeAll h pending, results(u \<mapsto> Failure ''script_error'' msg), w2)
           | (Inr state, w2) \<Rightarrow>
               if state = ''complete'' \<or> state = ''interactive'' then
                 (case capture env u w2 of
                    (oc, w3) \<Rightarrow>
                      sweep env tab_url_map hs
                        (removeAll h pending, results(u \<mapsto> oc), close_if_many env w3))
               else sweep env tab_url_map hs (pending, results, w2)))"

text \<open>The \<^verbatim>\<open>while\<close> loop of \<^verbatim>\<open>_collect_batch\<close>.\<close>

function collect_loop ::
  "driver_env \<Rightarrow> (handle \<times> string) list \<Rightarrow> int \<Rightarrow> real option \<Rightarrow> real
     \<Rightarrow> handle list \<times> outcomes \<times> world \<Rightarrow> handle list \<times> outcomes \<times> world" where
  "collect_loop env tab_url_map timeout deadline start (pending, results, w) =
     (if pending \<noteq> [] \<and> clock w - start < real_of_int timeout \<and> \<not> deadline_exceeded deadline w
      then
        case sweep env tab_url_map pending (pending, results, w) of
          (pending', results', w') \<Rightarrow>
            if pending' \<noteq> [] \<and> \<not> deadline_exceeded deadline w'
            then collect_loop env tab_url_map timeout deadline start
                   (pending', results', sleep_half w')
            else collect_loop env tab_url_map timeout deadline start (pending', results', w')
      else (pending, results, w))"
  by pat_completeness auto

termination
proof (relation "measure (\<lambda>(env, tab_url_map, timeout, deadline, start, pending, results, w).
          if pending \<noteq> [] \<and> clock w - start < real_of_int timeout \<and> \<not> deadline_exceeded deadline w
          then Suc (nat \<lceil>2 * (start + real_of_int timeout - clock w)\<rceil>) else 0)",
       goal_cases)
  case 1
  show ?case by simp
next
  have call: "clock w \<le> clock (driver_call env w)" for env w
    by (simp add: driver_call_def)
  have switch: "clock w \<le> clock (snd (switch_to_window env h w))" for env h w
    by (simp add: switch_to_window_def driver_call_def Let_def split: option.splits)
  have ready: "clock w \<le> clock (snd (ready_state env w))" for env w
    by (simp add: ready_state_def driver_call_def Let_def split: option.splits)
  have conn: "clock w \<le> clock (snd (is_connection_error_page env w))" for env w
    by (simp add: is_connection_error_page_def driver_call_def Let_def split: option.splits)
  have src: "clock w \<le> clock (snd (page_source env w))" for env w
    by (simp add: page_source_def driver_call_def Let_def split: option.splits)
  have cnt: "clock w \<le> clock (snd (count_window_handles env w))" for env w
    by (simp add: count_window_handles_def driver_call_def Let_def split: option.splits)
  have cls: "clock w \<le> clock (snd (close_window env w))" for env w
    by (simp add: close_window_def driver_call_def Let_def split: option.splits)
  have cap: "clock w \<le> clock (snd (capture env u w))" for env u w
  proof -
    have "clock w \<le> clock (snd (is_connection_error_page env w))" by (rule conn)
    moreover have "clock (snd (is_connection_error_page env w))
        \<le> clock (snd (page_source env (snd (is_connection_error_page env w))))" by (rule src)
    ultimately show ?thesis
      by (auto simp: capture_def split: prod.splits sum.splits bool.splits)
  qed
  have cim: "clock w \<le> clock (close_if_many env w)" for env w
  proof -
    have "clock w \<le> clock (snd (count_window_handles env w))" by (rule cnt)
    moreover have "clock (snd (count_window_handles env w))
        \<le> clock (snd (close_window env (snd (count_window_handles env w))))" by (rule cls)
    ultimately show ?thesis
      by (auto simp: close_if_many_def split: prod.splits sum.splits)
  qed
  have sweep_clock: "clock w \<le> clock (snd (snd (sweep env m hs (p, r, w))))" for env m hs p r w
  proof (induction hs arbitrary: p r w)
    case Nil
    show ?case by simp
  next
    case (Cons h hs)
    let ?w1 = "snd (switch_to_window env h w)"
    let ?w2 = "snd (ready_state env ?w1)"
    let ?w3 = "snd (capture env (url_of m h) ?w2)"
    have ih: "clock w \<le> clock (snd (snd (sweep env m hs (p', r', w'))))"
      if "clock w \<le> clock w'" for p' r' w'
      using that Cons [where w = w' and p = p' and r = r'] by (rule order_trans)
    have 1: "clock w \<le> clock ?w1" by (rule switch)
    have "clock ?w1 \<le> clock ?w2" by (rule ready)
    with 1 have 2: "clock w \<le> clock ?w2" by (rule order_trans)
    have "clock ?w2 \<le> clock ?w3" by (rule cap)
    with 2 have 3: "clock w \<le> clock ?w3" by (rule order_trans)
    have "clock ?w3 \<le> clock (close_if_many env ?w3)" by (rule cim)
    with 3 have 4: "clock w \<le> clock (close_if_many env ?w3)" by (rule order_trans)
    show ?case
      using ih [OF 1] ih [OF 2] ih [OF 4]
      by (auto simp: Let_def split: prod.splits sum.splits)
  qed
  {
    case (2 env tab_url_map timeout deadline start pending results w pending' y results' w')
    from 2(2,3) have sw: "sweep env tab_url_map pending (pending, results, w) = (pending', results', w')"
      by simp
    from sweep_clock [of w env tab_url_map pending pending results] sw
    have "clock w \<le> clock w'" by simp
    then have "2 * (start + real_of_int timeout - clock (sleep_half w'))
        \<le> 2 * (start + real_of_int timeout - clock w) - 1"
      by (simp add: sleep_half_def)
    then have "\<lceil>2 * (start + real_of_int timeout - clock (sleep_half w'))\<rceil>
        \<le> \<lceil>2 * (start + real_of_int timeout - clock w) - 1\<rceil>"
      by (rule ceiling_mono)
    moreover from 2 have "0 < 2 * (start + real_of_int timeout - clock w)" by simp
    then have "0 < \<lceil>2 * (start + real_of_int timeout - clock w)\<rceil>" by simp
    ultimately have "nat \<lceil>2 * (start + real_of_int timeout - clock (sleep_half w'))\<rceil>
        < nat \<lceil>2 * (start + real_of_int timeout - clock w)\<rceil>"
      by simp
    with 2(1) show ?case by simp
  next
    case (3 env tab_url_map timeout deadline start pending results w pending' y results' w')
    from 3(1,4) show ?case by auto
  }
qed

text \<open>
  The characters that \<^verbatim>\<open>str.strip()\<close> removes, among the first 256 code points.
\<close>

definition is_space :: "char \<Rightarrow> bool" where
  "is_space c = (of_char c \<in> {9, 10, 11, 12, 13, 28, 29, 30, 31, 32, 133, 160 :: nat})"

definition nonblank :: "string \<Rightarrow> bool" where
  "nonblank html = (\<exists>c\<in>set html. \<not> is_space c)"

text \<open>
  The loop over the tabs that are still pending when the \<^verbatim>\<open>while\<close> loop has ended: one
  last capture, then the tab is closed if more than one is open.
\<close>

fun abandon ::
  "driver_env \<Rightarrow> (handle \<times> string) list \<Rightarrow> handle list \<Rightarrow> outcomes \<times> world
     \<Rightarrow> outcomes \<times> world" where
  "abandon env tab_url_map [] st = st"
| "abandon env tab_url_map (h # hs) (results, w) =
     (let u = url_of tab_url_map h in
      case switch_to_window env h w of
        (Inl msg, w1) \<Rightarrow>
          abandon env tab_url_map hs
            (results(u \<mapsto> Failure ''timeout'' (''Tab error: '' @ msg)), w1)
      | (Inr x, w1) \<Rightarrow>
          (case page_source env w1 of
             (Inl msg, w2) \<Rightarrow>
               abandon env tab_url_map hs
                 (results(u \<mapsto> Failure ''timeout'' ''Page load timed out''),
                  close_if_many env w2)
           | (Inr html, w2) \<Rightarrow>
               abandon env tab_url_map hs
                 (results(u \<mapsto> (if nonblank html then Content html
                                else Failure ''timeout'' ''Page load timed out'')),
                  close_if_many env w2)))"

text \<open>
  \<^verbatim>\<open>_collect_batch\<close>. The load times that it also returns are dropped by its caller and
  are left out.
\<close>

definition collect_batch ::
  "driver_env \<Rightarrow> (handle \<times> string) list \<Rightarrow> (string \<times> real) list \<Rightarrow> int \<Rightarrow> real option \<Rightarrow> world
     \<Rightarrow> outcomes \<times> world" where
  "collect_batch env tab_url_map tab_dispatch_times timeout deadline w =
     (case collect_loop env tab_url_map timeout deadline (clock w)
             (map fst tab_url_map, Map.empty, w) of
        (pending, results, w1) \<Rightarrow> abandon env tab_url_map pending (results, w1))"

section \<open>The fetch orchestrator\<close>

definition mark_timeout :: "string list \<Rightarrow> outcomes \<Rightarrow> outcomes" where
  "mark_timeout remaining all_results =
     fold (\<lambda>u r. r(u \<mapsto> Failure ''timeout'' ''Overall timeout reached'')) remaining all_results"

text \<open>
  The loop \<^verbatim>\<open>for i in range(0, len(urls), MAX_CONCURRENT_TABS)\<close> for a bound that is
  not negative; \<^verbatim>\<open>range\<close> raises for the step 0.
\<close>

function fetch_loop ::
  "driver_env \<Rightarrow> nat \<Rightarrow> int \<Rightarrow> real option \<Rightarrow> string list \<Rightarrow> nat \<Rightarrow> outcomes \<times> world
     \<Rightarrow> (string + outcomes) \<times> world" where
  "fetch_loop env n page_timeout deadline urls i (all_results, w) =
     (if n = 0 then (Inl ''range() arg 3 must not be zero'', w)
      else if length urls \<le> i then (Inr all_results, w)
      else if deadline_exceeded deadline w
        then (Inr (mark_timeout (drop i urls) all_results), w)
      else
        case dispatch_batch env (take n (drop i urls)) w of
          (Inl msg, w1) \<Rightarrow> (Inl msg, w1)
        | (Inr (tab_url_map, tab_dispatch_times), w1) \<Rightarrow>
            (case collect_batch env tab_url_map tab_dispatch_times page_timeout deadline w1 of
               (batch_results, w2) \<Rightarrow>
                 fetch_loop env n page_timeout deadline urls (i + n)
                   (all_results ++ batch_results, w2)))"
  by pat_completeness auto
termination
  by (relation "measure (\<lambda>(env, n, page_timeout, deadline, urls, i, st). length urls - i)") auto

text \<open>
  What the orchestrator finds outside the program besides the driver: whether the virtual
  display or the construction of the driver raises, how long that takes, and the content
  extractor, which answers \<open>None\<close> when it fails.
\<close>

record browser_env =
  launch_raises :: "string option"
  launch_takes :: real
  driver :: driver_env
  extractor :: "string \<Rightarrow> string \<Rightarrow> string option"

text \<open>A new driver has one tab, which is the current one.\<close>

definition launched_world :: "real \<Rightarrow> world" where
  "launched_world t = \<lparr>window_handles = [0], current_window = 0, next_handle = 1,
                        clock = t, calls = 0, peak = 1\<rparr>"

text \<open>
  The body of the \<^verbatim>\<open>try\<close> block of \<^verbatim>\<open>_fetch_urls_with_browser\<close> up to the end of the
  batch loop, with the driver's state at that point. \<open>max_concurrent_tabs\<close> is the
  configured bound and \<open>total_start\<close> the clock at the entry. The \<^verbatim>\<open>finally\<close> block,
  which quits the driver and swallows every exception, comes after the results are
  settled and is left out.
\<close>

definition browse ::
  "browser_env \<Rightarrow> int \<Rightarrow> real \<Rightarrow> string list \<Rightarrow> int \<Rightarrow> int
     \<Rightarrow> (string + outcomes) \<times> world option" where
  "browse env max_concurrent_tabs total_start urls page_timeout overall_timeout =
     (case launch_raises env of
        Some msg \<Rightarrow> (Inl msg, None)
      | None \<Rightarrow>
          (case set_page_load_timeout (driver env)
                  (launched_world (total_start + \<bar>launch_takes env\<bar>)) of
             (Inl msg, w1) \<Rightarrow> (Inl msg, Some w1)
           | (Inr x, w1) \<Rightarrow>
               let deadline = (if overall_timeout > 0
                               then Some (total_start + real_of_int overall_timeout)
                               else None)
               in if max_concurrent_tabs < 0 then (Inr Map.empty, Some w1)
                  else case fetch_loop (driver env) (nat max_concurrent_tabs) page_timeout
                              deadline urls 0 (Map.empty, w1) of
                         (r, w2) \<Rightarrow> (r, Some w2)))"

text \<open>The pass over \<^verbatim>\<open>all_results\<close> that replaces each text by its extract.\<close>

definition extract_all :: "(string \<Rightarrow> string \<Rightarrow> string option) \<Rightarrow> outcomes \<Rightarrow> outcomes" where
  "extract_all ex all_results =
     (\<lambda>u. case all_results u of
             None \<Rightarrow> None
           | Some (Content html) \<Rightarrow>
               (case ex html u of
                  Some t \<Rightarrow>
                    if t \<noteq> [] then Some (Content t)
                    else Some (Failure ''extraction_error'' ''Trafilatura failed to extract content'')
                | None \<Rightarrow>
                    Some (Failure ''extraction_error'' ''Trafilatura failed to extract content''))
           | Some (Failure ty msg) \<Rightarrow> Some (Failure ty msg))"



section \<open>Batches and the run over them, as the specification words them\<close>

text \<open>Consecutive batches of at most \<open>n\<close> elements.\<close>

function batches :: "nat \<Rightarrow> 'a list \<Rightarrow> 'a list list" where
  "batches n xs = (if n = 0 \<or> xs = [] then [] else take n xs # batches n (drop n xs))"
  by pat_completeness auto
termination
  by (relation "measure (\<lambda>(n, xs). length xs)") auto

declare batches.simps [simp del]
declare fetch_loop.simps [simp del]
declare collect_loop.simps [simp del]

text \<open>
  For each batch: if the deadline has passed, every URL of this batch and of the batches
  that remain is marked as timed out and the run stops; otherwise the batch is dispatched
  and collected.
\<close>

fun run_batches ::
  "driver_env \<Rightarrow> int \<Rightarrow> real option \<Rightarrow> string list list \<Rightarrow> outcomes \<times> world
     \<Rightarrow> (string + outcomes) \<times> world" where
  "run_batches env page_timeout deadline [] (all_results, w) = (Inr all_results, w)"
| "run_batches env page_timeout deadline (b # bs) (all_results, w) =
     (if deadline_exceeded deadline w
      then (Inr (mark_timeout (concat (b # bs)) all_results), w)
      else
        case dispatch_batch env b w of
          (Inl msg, w1) \<Rightarrow> (Inl msg, w1)
        | (Inr (tab_url_map, tab_dispatch_times), w1) \<Rightarrow>
            (case collect_batch env tab_url_map tab_dispatch_times page_timeout deadline w1 of
               (batch_results, w2) \<Rightarrow>
                 run_batches env page_timeout deadline bs (all_results ++ batch_results, w2)))"

section \<open>Properties of the states\<close>






section \<open>Sample drivers\<close>

text \<open>A driver whose calls all succeed, each in a tenth of a second, on loaded pages.\<close>

definition calm_driver :: driver_env where
  "calm_driver = \<lparr>raises = (\<lambda>k. None), takes = (\<lambda>k. 1 / 10),
     ready_states = (\<lambda>k. ''complete''), page_sources = (\<lambda>k. ''<html>x</html>''),
     connection_errors = (\<lambda>k. False)\<rparr>"


text \<open>
  The same driver, except that two calls raise. With two URLs in the first batch, call 0
  sets the page load timeout, calls 1 to 6 dispatch the batch, and in the first sweep the
  calls 7 to 12 and 13 to 18 handle the two tabs; calls 12 and 18 are their
  \<^verbatim>\<open>close\<close> calls.
\<close>

definition stuck_driver :: driver_env where
  "stuck_driver = \<lparr>raises = (\<lambda>k. if k = 12 \<or> k = 18 then Some ''close failed'' else None),
     takes = (\<lambda>k. 1 / 10),
     ready_states = (\<lambda>k. ''complete''), page_sources = (\<lambda>k. ''<html>x</html>''),
     connection_errors = (\<lambda>k. False)\<rparr>"

definition stuck_browser :: browser_env where
  "stuck_browser = \<lparr>launch_raises = None, launch_takes = 2, driver = stuck_driver,
     extractor = (\<lambda>html u. Some html)\<rparr>"

definition five_urls :: "string list" where
  "five_urls = [''a'', ''b'', ''c'', ''d'', ''e'']"

text \<open>A driver state whose clock shows 100 seconds.\<close>

definition late_world :: world where
  "late_world = launched_world 100"

section \<open>The request checks of fetch_pages\<close>

lemma sample_search_run:
  "get_sources sample_search [''q''] initial_state =
     (Inr [(''q'', last_search_results searched_state)], searched_state)"
  by (simp add: sample_defs op_defs)

lemma first_invalid_None: "first_invalid v xs = None \<longleftrightarrow> set xs \<subseteq> v"
  by (induction xs) auto


lemma urls_to_fetch_Nil:
  "urls_to_fetch rs xs = [] \<longleftrightarrow> (\<forall>it\<in>set rs. index it \<notin> set xs)"
  by (auto simp: urls_to_fetch_def filter_empty_conv)

lemma urls_to_fetch_nonempty:
  "xs \<noteq> [] \<Longrightarrow> set xs \<subseteq> valid_indexes rs \<Longrightarrow> urls_to_fetch rs xs \<noteq> []"
  by (cases xs) (auto simp: urls_to_fetch_Nil valid_indexes_def)

lemma check_tor_timeout_True: "check_tor_timeout k now s = (True, s') \<Longrightarrow> s' = s"
  by (auto simp: check_tor_timeout_def split: option.splits if_splits)

text \<open>The checks of \<^verbatim>\<open>fetch_pages\<close> as one chain of conditions on the request.\<close>

lemma fetch_pages_cases:
  "fetch_pages k now f xs s =
    (if last_search_results s = [] then (Inl No_search_results, s)
     else if fetch_pages_called s then (Inl Already_fetched, s)
     else if \<not> fst (check_tor_timeout k now s)
       then (Inl Tor_timed_out, snd (check_tor_timeout k now s))
     else if length xs > 5 then (Inl (Too_many_indexes (length xs)), s)
     else if \<not> set xs \<subseteq> valid_indexes (last_search_results s)
       then (Inl (Invalid_index (the (first_invalid (valid_indexes (last_search_results s)) xs))
                (sorted_valid_indexes (last_search_results s))), s)
     else if xs = [] then (Inl No_valid_urls, s)
     else (case f (s\<lparr>fetch_pages_called := True\<rparr>) (urls_to_fetch (last_search_results s) xs) of
             Inl msg \<Rightarrow> Inl (External msg)
           | Inr results \<Rightarrow> Inr (map (\<lambda>it. (it, results (url it)))
                            (filter (\<lambda>it. index it \<in> set xs) (last_search_results s))),
           kill_tor (s\<lparr>fetch_pages_called := True\<rparr>)))"
proof (cases "check_tor_timeout k now s")
  case (Pair b s1)
  show ?thesis
  proof (cases b)
    case False
    with Pair show ?thesis by (simp add: fetch_pages_def)
  next
    case True
    with Pair have s1: "s1 = s" by (simp add: check_tor_timeout_True)
    show ?thesis
    proof (cases "first_invalid (valid_indexes (last_search_results s)) xs")
      case None
      then have sub: "set xs \<subseteq> valid_indexes (last_search_results s)"
        by (simp add: first_invalid_None)
      have "xs = [] \<longleftrightarrow> urls_to_fetch (last_search_results s) xs = []"
        using urls_to_fetch_nonempty [OF _ sub] by (auto simp: urls_to_fetch_def)
      with Pair True s1 None sub show ?thesis
        by (auto simp: fetch_pages_def Let_def split: sum.splits)
    next
      case (Some i)
      then have "\<not> set xs \<subseteq> valid_indexes (last_search_results s)"
        using first_invalid_None [of "valid_indexes (last_search_results s)" xs] by simp
      with Pair True s1 Some show ?thesis
        by (simp add: fetch_pages_def)
    qed
  qed
qed

section \<open>The search loop computes the specified result set\<close>

lemma first_by_url_append:
  "first_by_url seen (xs @ ys) =
     first_by_url seen xs @ first_by_url (seen \<union> href ` set xs) ys"
  by (induction xs arbitrary: seen) (auto simp: insert_absorb)

lemma number_from_append:
  "number_from i (xs @ ys) = number_from i xs @ number_from (i + int (length xs)) ys"
  by (induction xs arbitrary: i) (auto simp: algebra_simps)

lemma length_number_from [simp]: "length (number_from i rs) = length rs"
  by (induction rs arbitrary: i) auto

lemma number_from_snoc: "number_from i (rs @ [r]) = number_from i rs @ [to_item (i + int (length rs)) r]"
  by (simp add: number_from_append)

lemma scan_hits_spec:
  "scan_hits hs (a, qr) =
     (a\<lparr>seen_urls := seen_urls a \<union> href ` set hs,
        found := found a @ number_from (current_index a) (first_by_url (seen_urls a) hs),
        current_index := current_index a + int (length (first_by_url (seen_urls a) hs))\<rparr>,
      qr @ number_from (current_index a) (first_by_url (seen_urls a) hs))"
proof (induction hs arbitrary: a qr)
  case Nil
  show ?case by simp
next
  case (Cons r rs)
  show ?case
  proof (cases "href r \<in> seen_urls a")
    case True
    then have "seen_urls a \<union> href ` set (r # rs) = seen_urls a \<union> href ` set rs" by auto
    with True Cons show ?thesis by (simp add: href_def [symmetric])
  next
    case False
    then show ?thesis
      by (simp add: href_def [symmetric] Let_def Cons to_item_def [symmetric] algebra_simps
          Un_insert_left [symmetric] del: Un_insert_left)
  qed
qed

lemma scan_queries_spec:
  "scan_queries t k qs a = (r, a') \<Longrightarrow>
     found a' = found a @ number_from (current_index a)
                  (first_by_url (seen_urls a) (provider_hits t k qs))"
proof (induction qs arbitrary: k a)
  case Nil
  then show ?case by simp
next
  case (Cons q qs)
  show ?case
  proof (cases "t k q")
    case (Inl msg)
    with Cons.prems show ?thesis by simp
  next
    case (Inr hs)
    let ?new = "first_by_url (seen_urls a) hs"
    let ?a1 = "a\<lparr>seen_urls := seen_urls a \<union> href ` set hs,
        found := found a @ number_from (current_index a) ?new,
        current_index := current_index a + int (length ?new),
        results_by_query := results_by_query a @ [(q, number_from (current_index a) ?new)]\<rparr>"
    from Cons.prems Inr have "scan_queries t (Suc k) qs ?a1 = (r, a')"
      by (simp add: scan_hits_spec)
    from Cons.IH [OF this] Inr show ?thesis
      by (simp add: first_by_url_append number_from_append)
  qed
qed

lemma scan_queries_groups:
  "scan_queries t k qs a = (None, a') \<Longrightarrow>
     map fst (results_by_query a') = map fst (results_by_query a) @ qs \<and>
     concat (map snd (results_by_query a')) = concat (map snd (results_by_query a)) @ 
        number_from (current_index a) (first_by_url (seen_urls a) (provider_hits t k qs))"
proof (induction qs arbitrary: k a)
  case Nil
  then show ?case by simp
next
  case (Cons q qs)
  show ?case
  proof (cases "t k q")
    case (Inl msg)
    with Cons.prems show ?thesis by simp
  next
    case (Inr hs)
    let ?new = "first_by_url (seen_urls a) hs"
    let ?a1 = "a\<lparr>seen_urls := seen_urls a \<union> href ` set hs,
        found := found a @ number_from (current_index a) ?new,
        current_index := current_index a + int (length ?new),
        results_by_query := results_by_query a @ [(q, number_from (current_index a) ?new)]\<rparr>"
    from Cons.prems Inr have "scan_queries t (Suc k) qs ?a1 = (None, a')"
      by (simp add: scan_hits_spec)
    from Cons.IH [OF this] Inr show ?thesis
      by (simp add: first_by_url_append number_from_append)
  qed
qed

lemma map_index_number_from:
  "map index (number_from i rs) = [i..i + int (length rs) - 1]"
proof (induction rs arbitrary: i)
  case Nil
  show ?case by simp
next
  case (Cons r rs)
  have "[i..i + int (length (r # rs)) - 1] = i # [i + 1..i + int (length (r # rs)) - 1]"
    by (rule upto_rec1) simp
  with Cons [of "i + 1"] show ?case by (simp add: to_item_def algebra_simps)
qed

lemma map_url_number_from: "map url (number_from i rs) = map href rs"
  by (induction rs arbitrary: i) (auto simp: to_item_def)

lemma set_first_by_url: "href ` set (first_by_url seen hs) = href ` set hs - seen"
  by (induction hs arbitrary: seen) auto

lemma distinct_first_by_url: "distinct (map href (first_by_url seen hs))"
proof (induction hs arbitrary: seen)
  case Nil
  show ?case by simp
next
  case (Cons r rs)
  have "href r \<notin> href ` set (first_by_url (insert (href r) seen) rs)"
    by (simp add: set_first_by_url)
  with Cons show ?case by auto
qed

lemma length_first_by_url: "length (first_by_url {} hs) = card (href ` set hs)"
proof -
  have "card (href ` set hs) = card (set (map href (first_by_url {} hs)))"
    using set_first_by_url [of "{}" hs] by simp
  also have "\<dots> = length (map href (first_by_url {} hs))"
    using distinct_first_by_url by (rule distinct_card)
  finally show ?thesis by simp
qed

lemma first_by_url_subset: "set (first_by_url seen hs) \<subseteq> set hs"
  by (induction hs arbitrary: seen) auto

lemma set_number_from: "set (number_from i rs) \<subseteq> {it. \<exists>r\<in>set rs. url it = href r \<and>
   title it = dict_get r ''title'' '''' \<and> snippet it = truncate_snippet (dict_get r ''body'' '''')}"
  by (induction rs arbitrary: i) (auto simp: to_item_def)

lemma get_sources_returned:
  assumes "returned (get_sources e qs s)"
  shows "\<exists>a s2. scan_queries (ddgs_text e) 0 qs
            \<lparr>seen_urls = {}, found = [], current_index = 1, results_by_query = []\<rparr> = (None, a) \<and>
          get_sources e qs s = (Inr (results_by_query a),
               s2\<lparr>last_search_results := found a, fetch_pages_called := False\<rparr>) \<and>
          start_tor (tor_start e) (stop_if_running s) = Inr s2 \<and> qs \<noteq> [] \<and> length qs \<le> 3"
  using assms
  by (auto simp: returned_def get_sources_def Let_def split: if_splits sum.splits option.splits prod.splits)

lemma search_results_eq:
  assumes "returned (get_sources e qs s)"
  shows "search_results e qs s = number_from 1 (first_by_url {} (search_hits e qs))"
    and "map fst (projr (fst (get_sources e qs s))) = qs"
    and "concat (map snd (projr (fst (get_sources e qs s)))) = search_results e qs s"
proof -
  from get_sources_returned [OF assms] obtain a s2 where
    scan: "scan_queries (ddgs_text e) 0 qs
            \<lparr>seen_urls = {}, found = [], current_index = 1, results_by_query = []\<rparr> = (None, a)"
    and res: "get_sources e qs s = (Inr (results_by_query a),
               s2\<lparr>last_search_results := found a, fetch_pages_called := False\<rparr>)"
    by blast
  from scan_queries_spec [OF scan] res
  show 1: "search_results e qs s = number_from 1 (first_by_url {} (search_hits e qs))"
    by (simp add: search_results_def search_hits_def)
  from scan_queries_groups [OF scan] res
  show "map fst (projr (fst (get_sources e qs s))) = qs" by simp
  from scan_queries_groups [OF scan] res 1
  show "concat (map snd (projr (fst (get_sources e qs s)))) = search_results e qs s"
    by (simp add: search_hits_def)
qed

lemma truncate_snippet_short: "length b \<le> 125 \<Longrightarrow> truncate_snippet b = b"
  by (simp add: truncate_snippet_def)

lemma truncate_snippet_long: "length b > 125 \<Longrightarrow> truncate_snippet b = take 125 b @ ''...''"
  by (simp add: truncate_snippet_def)



lemma kill_tor_stops: "\<not> is_tor_running (kill_tor s)"
  by (simp add: kill_tor_def is_tor_running_def)

lemma kill_tor_keeps [simp]:
  "last_search_results (kill_tor s) = last_search_results s"
  "fetch_pages_called (kill_tor s) = fetch_pages_called s"
  by (simp_all add: kill_tor_def)

lemma run_append: "run k (xs @ ys) s = run k ys (run k xs s)"
  by (induction xs arbitrary: s) auto

lemma returned_flag:
  "returned (get_sources e qs s) \<Longrightarrow>
     is_tor_running (snd (get_sources e qs s)) \<and> \<not> fetch_pages_called (snd (get_sources e qs s))"
  by (auto simp: returned_def get_sources_def Let_def start_tor_def is_tor_running_def
      split: if_splits sum.splits option.splits prod.splits)

lemma failed_search_stops:
  "qs \<noteq> [] \<Longrightarrow> length qs \<le> 3 \<Longrightarrow> \<not> returned (get_sources e qs s) \<Longrightarrow>
     \<not> is_tor_running (snd (get_sources e qs s))"
  by (auto simp: returned_def get_sources_def Let_def kill_tor_stops
      split: if_splits sum.splits option.splits prod.splits)

lemma fetch_specific_page_stops: "\<not> is_tor_running (snd (fetch_specific_page e f u s))"
  by (auto simp: fetch_specific_page_def Let_def kill_tor_stops
      split: sum.splits option.splits outcome.splits)

lemma check_tor_timeout_snd:
  "snd (check_tor_timeout k now s) = s \<or> snd (check_tor_timeout k now s) = kill_tor s"
  by (auto simp: check_tor_timeout_def split: option.splits)

lemma fetch_pages_snd:
  "snd (fetch_pages k now f xs s) = s \<or> \<not> is_tor_running (snd (fetch_pages k now f xs s))"
  using check_tor_timeout_snd [of k now s]
  by (auto simp: fetch_pages_cases kill_tor_stops)

lemma accepted_stops:
  "accepted (fetch_pages k now f xs s) \<Longrightarrow> \<not> is_tor_running (snd (fetch_pages k now f xs s))"
  by (auto simp: fetch_pages_cases accepted_def rejection_def kill_tor_stops split: if_splits)

lemma perform_cases:
  "perform k c s = s \<or> \<not> is_tor_running (perform k c s) \<or>
   (\<exists>e qs. c = Search e qs \<and> returned (get_sources e qs s))"
proof (cases c)
  case (Search e qs)
  show ?thesis
  proof (cases "qs = [] \<or> length qs > 3")
    case True
    then have "get_sources e qs s = (Inl At_least_one_query, s) \<or>
       get_sources e qs s = (Inl Max_queries, s)"
      by (auto simp: get_sources_def)
    with Search show ?thesis by auto
  next
    case False
    with failed_search_stops [of qs e s] Search show ?thesis by auto
  qed
next
  case (Fetch_by_index now f xs)
  with fetch_pages_snd [of k now f xs s] show ?thesis by auto
next
  case (Fetch_direct e f u)
  with fetch_specific_page_stops show ?thesis by simp
qed

lemma running_after_run:
  "\<not> is_tor_running s0 \<Longrightarrow> is_tor_running (run k cs s0) \<Longrightarrow>
    \<exists>pre e qs post. cs = pre @ Search e qs # post \<and>
       returned (get_sources e qs (run k pre s0)) \<and>
       run k cs s0 = snd (get_sources e qs (run k pre s0))"
proof (induction cs rule: rev_induct)
  case Nil
  then show ?case by simp
next
  case (snoc c cs)
  let ?s1 = "run k cs s0"
  have step: "run k (cs @ [c]) s0 = perform k c ?s1" by (simp add: run_append)
  from perform_cases [of k c ?s1] snoc.prems(2) step
  consider (same) "perform k c ?s1 = ?s1"
    | (search) e qs where "c = Search e qs" "returned (get_sources e qs ?s1)"
    by auto
  then show ?case
  proof cases
    case same
    with snoc.prems step have "is_tor_running ?s1" by simp
    from snoc.IH [OF snoc.prems(1) this] obtain pre e qs post where
      "cs = pre @ Search e qs # post" "returned (get_sources e qs (run k pre s0))"
      "?s1 = snd (get_sources e qs (run k pre s0))" by blast
    with same step have "cs @ [c] = pre @ Search e qs # (post @ [c]) \<and>
       returned (get_sources e qs (run k pre s0)) \<and>
       run k (cs @ [c]) s0 = snd (get_sources e qs (run k pre s0))" by simp
    then show ?thesis by blast
  next
    case search
    with step have "cs @ [c] = cs @ Search e qs # [] \<and>
       returned (get_sources e qs (run k cs s0)) \<and>
       run k (cs @ [c]) s0 = snd (get_sources e qs (run k cs s0))" by simp
    then show ?thesis by blast
  qed
qed

lemma fetch_only_keeps_empty:
  "last_search_results s = [] \<Longrightarrow> list_all is_fetch_by_index cs \<Longrightarrow> run k cs s = s"
proof (induction cs)
  case Nil
  show ?case by simp
next
  case (Cons c cs)
  from Cons.prems obtain now f xs where c: "c = Fetch_by_index now f xs"
    by (cases c) (auto simp: is_fetch_by_index_def)
  with Cons.prems have "perform k c s = s" by (simp add: fetch_pages_cases)
  with Cons show ?case by simp
qed

lemma results_empty_iff:
  assumes "returned (get_sources e qs s)"
  shows "search_results e qs s = [] \<longleftrightarrow> search_hits e qs = []"
proof -
  have "length (search_results e qs s) = card (href ` set (search_hits e qs))"
    by (simp add: search_results_eq(1) [OF assms] length_first_by_url)
  then show ?thesis by (auto simp: card_eq_0_iff)
qed

lemma urls_to_fetch_remdups: "urls_to_fetch rs (remdups xs) = urls_to_fetch rs xs"
  by (simp add: urls_to_fetch_def)

lemma distinct_urls_to_fetch: "distinct (map url rs) \<Longrightarrow> distinct (urls_to_fetch rs xs)"
  by (simp add: urls_to_fetch_def distinct_map_filter)

lemma distinct_search_urls:
  "returned (get_sources e qs s) \<Longrightarrow> distinct (map url (search_results e qs s))"
  by (simp add: search_results_eq(1) map_url_number_from distinct_first_by_url)

section \<open>Tabs, batches and the deadline\<close>

lemmas driver_defs = driver_call_def current_window_handle_def open_window_def
  last_window_handle_def count_window_handles_def switch_to_window_def close_window_def
  navigate_def ready_state_def is_connection_error_page_def page_source_def
  set_page_load_timeout_def sleep_half_def


lemma navigate_frame [simp]:
  "window_handles (snd (navigate env u w)) = window_handles w"
  "peak (snd (navigate env u w)) = peak w"
  "next_handle (snd (navigate env u w)) = next_handle w"
  "current_window (snd (navigate env u w)) = current_window w"
  by (simp_all add: navigate_def driver_call_def Let_def split: option.splits)


lemma conn_frame [simp]:
  "window_handles (snd (is_connection_error_page env w)) = window_handles w"
  "peak (snd (is_connection_error_page env w)) = peak w"
  "next_handle (snd (is_connection_error_page env w)) = next_handle w"
  "current_window (snd (is_connection_error_page env w)) = current_window w"
  by (simp_all add: is_connection_error_page_def driver_call_def Let_def split: option.splits)


lemma count_frame [simp]:
  "window_handles (snd (count_window_handles env w)) = window_handles w"
  "peak (snd (count_window_handles env w)) = peak w"
  "next_handle (snd (count_window_handles env w)) = next_handle w"
  "current_window (snd (count_window_handles env w)) = current_window w"
  by (simp_all add: count_window_handles_def driver_call_def Let_def split: option.splits)

lemma last_frame [simp]:
  "window_handles (snd (last_window_handle env w)) = window_handles w"
  "peak (snd (last_window_handle env w)) = peak w"
  "next_handle (snd (last_window_handle env w)) = next_handle w"
  "current_window (snd (last_window_handle env w)) = current_window w"
  by (simp_all add: last_window_handle_def driver_call_def Let_def split: option.splits)

lemma current_frame [simp]:
  "window_handles (snd (current_window_handle env w)) = window_handles w"
  "peak (snd (current_window_handle env w)) = peak w"
  "next_handle (snd (current_window_handle env w)) = next_handle w"
  "current_window (snd (current_window_handle env w)) = current_window w"
  by (simp_all add: current_window_handle_def driver_call_def Let_def split: option.splits)



lemma close_frame [simp]:
  "peak (snd (close_window env w)) = peak w"
  "next_handle (snd (close_window env w)) = next_handle w"
  "current_window (snd (close_window env w)) = current_window w"
  by (simp_all add: close_window_def driver_call_def Let_def split: option.splits)


lemma sleep_frame [simp]:
  "window_handles (sleep_half w) = window_handles w"
  "peak (sleep_half w) = peak w"
  "next_handle (sleep_half w) = next_handle w"
  "current_window (sleep_half w) = current_window w"
  by (simp_all add: sleep_half_def)


lemma close_if_many_cases:
  "close_if_many env w = snd (count_window_handles env w) \<or>
   close_if_many env w = snd (close_window env (snd (count_window_handles env w)))"
  by (auto simp: close_if_many_def split: prod.splits sum.splits)

lemma close_if_many_frame [simp]:
  "peak (close_if_many env w) = peak w"
  "next_handle (close_if_many env w) = next_handle w"
  "current_window (close_if_many env w) = current_window w"
  using close_if_many_cases [of env w] by auto
















lemma fetch_loop_done:
  "0 < n \<Longrightarrow> length urls \<le> i \<Longrightarrow> fetch_loop env n pt dl urls i (R, w) = (Inr R, w)"
  by (subst fetch_loop.simps) simp

lemma fetch_loop_deadline:
  "0 < n \<Longrightarrow> i < length urls \<Longrightarrow> deadline_exceeded dl w \<Longrightarrow>
     fetch_loop env n pt dl urls i (R, w) = (Inr (mark_timeout (drop i urls) R), w)"
  by (subst fetch_loop.simps) simp

lemma fetch_loop_fail:
  "0 < n \<Longrightarrow> i < length urls \<Longrightarrow> \<not> deadline_exceeded dl w \<Longrightarrow>
   dispatch_batch env (take n (drop i urls)) w = (Inl msg, w1) \<Longrightarrow>
     fetch_loop env n pt dl urls i (R, w) = (Inl msg, w1)"
  by (subst fetch_loop.simps) simp

lemma fetch_loop_step:
  "0 < n \<Longrightarrow> i < length urls \<Longrightarrow> \<not> deadline_exceeded dl w \<Longrightarrow>
   dispatch_batch env (take n (drop i urls)) w = (Inr (m, t), w1) \<Longrightarrow>
   collect_batch env m t pt dl w1 = (br, w2) \<Longrightarrow>
     fetch_loop env n pt dl urls i (R, w) = fetch_loop env n pt dl urls (i + n) (R ++ br, w2)"
  by (subst fetch_loop.simps) simp

lemma concat_batches: "0 < n \<Longrightarrow> concat (batches n xs) = xs"
proof (induction n xs rule: batches.induct)
  case (1 n xs)
  then show ?case by (subst batches.simps) auto
qed

lemma batches_sizes: "b \<in> set (batches n xs) \<Longrightarrow> b \<noteq> [] \<and> length b \<le> n"
proof (induction n xs rule: batches.induct)
  case (1 n xs)
  show ?case
  proof (cases "n = 0 \<or> xs = []")
    case True
    with "1.prems" show ?thesis by (subst (asm) batches.simps) simp
  next
    case False
    with "1.prems" have "b = take n xs \<or> b \<in> set (batches n (drop n xs))"
      by (subst (asm) batches.simps) simp
    with False "1.IH" show ?thesis by auto
  qed
qed

lemma batches_Nil [simp]: "batches n [] = []"
  by (subst batches.simps) simp

lemma batches_Cons:
  "0 < n \<Longrightarrow> xs \<noteq> [] \<Longrightarrow> batches n xs = take n xs # batches n (drop n xs)"
  by (subst batches.simps) simp

lemma batches_two_of_five: "length xs = 5 \<Longrightarrow> map length (batches 2 xs) = [2, 2, 1]"
proof -
  assume l: "length xs = 5"
  then have 1: "xs \<noteq> []" "drop 2 xs \<noteq> []" "drop 2 (drop 2 xs) \<noteq> []"
    "drop 2 (drop 2 (drop 2 xs)) = []" by auto
  have "batches 2 xs = [take 2 xs, take 2 (drop 2 xs), take 2 (drop 2 (drop 2 xs))]"
    using 1 by (simp add: batches_Cons del: drop_drop)
  with l show ?thesis by simp
qed

lemma fetch_loop_run_batches:
  "0 < n \<Longrightarrow> fetch_loop env n pt dl urls i st = run_batches env pt dl (batches n (drop i urls)) st"
proof (induction env n pt dl urls i st rule: fetch_loop.induct)
  case (1 env n pt dl urls i R w)
  show ?case
  proof (cases "length urls \<le> i")
    case True
    with "1.prems" show ?thesis by (simp add: fetch_loop_done)
  next
    case False
    then have i: "i < length urls" by simp
    then have ne: "drop i urls \<noteq> []" by simp
    have bs: "batches n (drop i urls) = take n (drop i urls) # batches n (drop (i + n) urls)"
      using batches_Cons [OF "1.prems" ne] by (simp add: add.commute)
    have cc: "concat (take n (drop i urls) # batches n (drop (i + n) urls)) = drop i urls"
      using concat_batches [OF "1.prems", of "drop i urls"] bs by simp
    show ?thesis
    proof (cases "deadline_exceeded dl w")
      case True
      with "1.prems" i cc show ?thesis
        unfolding bs by (simp add: fetch_loop_deadline del: concat.simps)
    next
      case nd: False
      show ?thesis
      proof (cases "dispatch_batch env (take n (drop i urls)) w")
        case (Pair res w1)
        show ?thesis
        proof (cases res)
          case (Inl msg)
          with Pair "1.prems" i nd show ?thesis
            unfolding bs by (simp add: fetch_loop_fail)
        next
          case (Inr mt)
          obtain m t where mt: "mt = (m, t)" by (cases mt)
          obtain br w2 where cb: "collect_batch env m t pt dl w1 = (br, w2)"
            by (cases "collect_batch env m t pt dl w1")
          from "1.prems" have n0: "n \<noteq> 0" by simp
          from False have nle: "\<not> length urls \<le> i" .
          have ih: "fetch_loop env n pt dl urls (i + n) (R ++ br, w2)
              = run_batches env pt dl (batches n (drop (i + n) urls)) (R ++ br, w2)"
            using "1.IH" [OF n0 nle nd _ _ _ _ "1.prems"] Pair Inr mt cb by simp
          from Pair Inr mt cb "1.prems" i nd ih show ?thesis
            unfolding bs by (simp add: fetch_loop_step)
        qed
      qed
    qed
  qed
qed



















lemmas browse_defs = browse_def launched_world_def dispatch_batch_def acquire_tab_def
  collect_batch_def capture_def close_if_many_def url_of_def deadline_exceeded_def
  mark_timeout_def nonblank_def is_space_def

lemma mark_timeout_apply:
  "mark_timeout us R u =
     (if u \<in> set us then Some (Failure ''timeout'' ''Overall timeout reached'') else R u)"
  unfolding mark_timeout_def by (induction us arbitrary: R) auto

lemma extract_all_Failure: "R u = Some (Failure ty msg) \<Longrightarrow> extract_all ex R u = Some (Failure ty msg)"
  by (simp add: extract_all_def)



text \<open>The first batch of the stuck driver ends with both of its tabs open.\<close>

lemma stuck_first_batch:
  "map_option window_handles (snd (browse stuck_browser 2 0 [''a'', ''b''] 10 60)) = Some [0, 1] \<and>
   map_option calls (snd (browse stuck_browser 2 0 [''a'', ''b''] 10 60)) = Some 19"
  by (simp add: stuck_browser_def stuck_driver_def browse_defs driver_defs Let_def
      fetch_loop.simps collect_loop.simps)

section \<open>The browser paths in reachable states\<close>











section \<open>The claims\<close>



text \<open>
  C6. \<^verbatim>\<open>_check_tor_timeout\<close> answers false and leaves the state alone when no process or
  no start time is held; it answers false and kills the process when the time since the
  start exceeds the keepalive strictly; otherwise it answers true and changes nothing.
  Whether the process runs after \<^verbatim>\<open>get_sources\<close> or \<^verbatim>\<open>fetch_specific_page\<close> does not
  depend on the start time held before the call, so neither of them reaps by idleness.
\<close>

theorem check_tor_timeout_spec:
  "(tor_process s = None \<or> tor_start_time s = None \<longrightarrow>
      check_tor_timeout k now s = (False, s)) \<and>
   (tor_process s = Some p \<and> tor_start_time s = Some t0 \<and> now - t0 > k \<longrightarrow>
      check_tor_timeout k now s = (False, kill_tor s) \<and> \<not> is_tor_running (kill_tor s)) \<and>
   (tor_process s = Some p \<and> tor_start_time s = Some t0 \<and> \<not> now - t0 > k \<longrightarrow>
      check_tor_timeout k now s = (True, s) \<and> is_tor_running s) \<and>
   is_tor_running (snd (get_sources e qs (s\<lparr>tor_start_time := t\<rparr>)))
     = is_tor_running (snd (get_sources e qs s)) \<and>
   is_tor_running (snd (fetch_specific_page e' f u (s\<lparr>tor_start_time := t\<rparr>)))
     = is_tor_running (snd (fetch_specific_page e' f u s))"
proof (intro conjI)
  show "tor_process s = None \<or> tor_start_time s = None \<longrightarrow>
      check_tor_timeout k now s = (False, s)"
    by (auto simp: check_tor_timeout_def split: option.splits)
  show "tor_process s = Some p \<and> tor_start_time s = Some t0 \<and> now - t0 > k \<longrightarrow>
      check_tor_timeout k now s = (False, kill_tor s) \<and> \<not> is_tor_running (kill_tor s)"
    by (auto simp: check_tor_timeout_def kill_tor_def is_tor_running_def)
  show "tor_process s = Some p \<and> tor_start_time s = Some t0 \<and> \<not> now - t0 > k \<longrightarrow>
      check_tor_timeout k now s = (True, s) \<and> is_tor_running s"
    by (auto simp: check_tor_timeout_def is_tor_running_def)
  show "is_tor_running (snd (get_sources e qs (s\<lparr>tor_start_time := t\<rparr>)))
     = is_tor_running (snd (get_sources e qs s))"
    by (auto simp: get_sources_def Let_def stop_if_running_def start_tor_def kill_tor_def
        is_tor_running_def split: option.splits sum.splits prod.splits)
  show "is_tor_running (snd (fetch_specific_page e' f u (s\<lparr>tor_start_time := t\<rparr>)))
     = is_tor_running (snd (fetch_specific_page e' f u s))"
    by (auto simp: fetch_specific_page_def Let_def stop_if_running_def start_tor_def
        kill_tor_def is_tor_running_def split: option.splits sum.splits outcome.splits)
qed

theorem check_tor_timeout_spec_witness:
  "check_tor_timeout 120 50 initial_state = (False, initial_state) \<and>
   check_tor_timeout 120 221 searched_state = (False, kill_tor searched_state) \<and>
   \<not> is_tor_running (kill_tor searched_state) \<and>
   check_tor_timeout 120 220 searched_state = (True, searched_state) \<and>
   is_tor_running searched_state"
  using check_tor_timeout_spec [of initial_state 120 50 1 100]
    check_tor_timeout_spec [of searched_state 120 221 1 100]
    check_tor_timeout_spec [of searched_state 120 220 1 100]
  by (simp add: initial_state_def searched_state_def)

text \<open>
  C7. \<^verbatim>\<open>get_sources\<close> with no query or with more than three raises its validation error
  and returns the state as it was: the process, the result set and the flag are untouched.
\<close>

theorem get_sources_validation:
  "(queries = [] \<longrightarrow> get_sources e queries s = (Inl At_least_one_query, s)) \<and>
   (length queries > 3 \<longrightarrow> get_sources e queries s = (Inl Max_queries, s))"
  by (auto simp: get_sources_def)

theorem get_sources_validation_witness:
  "get_sources sample_search [] searched_state = (Inl At_least_one_query, searched_state) \<and>
   length [''a'', ''b'', ''c'', ''d''] > 3 \<and>
   get_sources sample_search [''a'', ''b'', ''c'', ''d''] searched_state
     = (Inl Max_queries, searched_state) \<and>
   is_tor_running searched_state"
  using get_sources_validation [of "[]" sample_search searched_state]
    get_sources_validation [of "[''a'', ''b'', ''c'', ''d'']" sample_search searched_state]
  by (simp add: searched_state_def is_tor_running_def)

text \<open>
  C4. When \<^verbatim>\<open>get_sources\<close> returns, the stored result set is the list of all hits of all
  queries with every hit of an already seen URL dropped, numbered 1, 2, ... across the
  queries: the indexes are \<open>1..n\<close>, the URLs are distinct and are exactly the URLs of the
  hits, the groups of the answer are the queries with their surviving results, and each
  snippet is the provider's when it has at most 125 characters and its first 125
  characters followed by three dots otherwise. Two queries of five hits each, distinct
  within a query, with two URLs in common, give the indexes \<open>1..8\<close>.
\<close>

theorem search_results_indexed:
  assumes "returned (get_sources e qs s)"
  shows "search_results e qs s = number_from 1 (first_by_url {} (search_hits e qs)) \<and>
    map index (search_results e qs s) = [1..int (length (search_results e qs s))] \<and>
    distinct (map url (search_results e qs s)) \<and>
    set (map url (search_results e qs s)) = href ` set (search_hits e qs) \<and>
    length (search_results e qs s) = card (href ` set (search_hits e qs)) \<and>
    map fst (projr (fst (get_sources e qs s))) = qs \<and>
    concat (map snd (projr (fst (get_sources e qs s)))) = search_results e qs s \<and>
    (\<forall>it\<in>set (search_results e qs s). \<exists>r\<in>set (search_hits e qs).
        url it = href r \<and> title it = dict_get r ''title'' '''' \<and>
        snippet it = truncate_snippet (dict_get r ''body'' '''')) \<and>
    (length b \<le> 125 \<longrightarrow> truncate_snippet b = b) \<and>
    (length b > 125 \<longrightarrow> truncate_snippet b = take 125 b @ ''...'') \<and>
    (qs = [qa, qb] \<and> ddgs_text e 0 qa = Inr ha \<and> ddgs_text e 1 qb = Inr hb \<and>
     length ha = 5 \<and> length hb = 5 \<and> distinct (map href ha) \<and> distinct (map href hb) \<and>
     card (href ` set ha \<inter> href ` set hb) = 2
       \<longrightarrow> map index (search_results e qs s) = [1..8])"
proof -
  let ?rs = "search_results e qs s" and ?hs = "search_hits e qs"
  note eq = search_results_eq [OF assms]
  have len: "length ?rs = card (href ` set ?hs)"
    by (simp add: eq(1) length_first_by_url)
  have idx: "map index ?rs = [1..int (length ?rs)]"
    by (simp add: eq(1) map_index_number_from)
  have urls: "map url ?rs = map href (first_by_url {} ?hs)"
    by (simp add: eq(1) map_url_number_from)
  have dist: "distinct (map url ?rs)"
    by (simp add: urls distinct_first_by_url)
  have seturl: "set (map url ?rs) = href ` set ?hs"
    using set_first_by_url [of "{}" ?hs] by (simp add: urls)
  have items: "\<forall>it\<in>set ?rs. \<exists>r\<in>set ?hs.
        url it = href r \<and> title it = dict_get r ''title'' '''' \<and>
        snippet it = truncate_snippet (dict_get r ''body'' '''')"
  proof
    fix it assume "it \<in> set ?rs"
    then have "it \<in> set (number_from 1 (first_by_url {} ?hs))" by (simp add: eq(1))
    with set_number_from [of 1 "first_by_url {} ?hs"]
    obtain r where "r \<in> set (first_by_url {} ?hs)" "url it = href r"
      "title it = dict_get r ''title'' ''''"
      "snippet it = truncate_snippet (dict_get r ''body'' '''')" by blast
    with first_by_url_subset [of "{}" ?hs]
    show "\<exists>r\<in>set ?hs. url it = href r \<and> title it = dict_get r ''title'' '''' \<and>
        snippet it = truncate_snippet (dict_get r ''body'' '''')" by blast
  qed
  have scen: "map index ?rs = [1..8]"
    if h: "qs = [qa, qb] \<and> ddgs_text e 0 qa = Inr ha \<and> ddgs_text e 1 qb = Inr hb \<and>
     length ha = 5 \<and> length hb = 5 \<and> distinct (map href ha) \<and> distinct (map href hb) \<and>
     card (href ` set ha \<inter> href ` set hb) = 2"
  proof -
    from h have hs: "?hs = ha @ hb" by (simp add: search_hits_def)
    from h have ca: "card (href ` set ha) = 5"
      using distinct_card [of "map href ha"] by simp
    from h have cb: "card (href ` set hb) = 5"
      using distinct_card [of "map href hb"] by simp
    have "card (href ` set ha) + card (href ` set hb)
        = card (href ` set ha \<union> href ` set hb) + card (href ` set ha \<inter> href ` set hb)"
      by (rule card_Un_Int) simp_all
    with ca cb h have "card (href ` set ha \<union> href ` set hb) = 8" by simp
    then have "length ?rs = 8" by (simp add: len hs image_Un)
    with idx show ?thesis by simp
  qed
  from eq len idx dist seturl items scen truncate_snippet_short truncate_snippet_long
  show ?thesis by blast
qed

theorem search_results_indexed_witness:
  "returned (get_sources two_query_search [''a'', ''b''] initial_state) \<and>
   map index (search_results two_query_search [''a'', ''b''] initial_state) = [1..8] \<and>
   length (search_results two_query_search [''a'', ''b''] initial_state) = 8"
proof -
  let ?ha = "[[(''href'', ''u1'')], [(''href'', ''u2'')], [(''href'', ''u3'')],
                  [(''href'', ''u4'')], [(''href'', ''u5'')]]"
  let ?hb = "[[(''href'', ''u6'')], [(''href'', ''u2'')], [(''href'', ''u7'')],
                  [(''href'', ''u4'')], [(''href'', ''u8'')]]"
  have ret: "returned (get_sources two_query_search [''a'', ''b''] initial_state)"
    by (simp add: two_query_search_def sample_defs op_defs returned_def)
  have pre: "[''a'', ''b''] = [''a'', ''b''] \<and> ddgs_text two_query_search 0 ''a'' = Inr ?ha \<and>
     ddgs_text two_query_search 1 ''b'' = Inr ?hb \<and>
     length ?ha = 5 \<and> length ?hb = 5 \<and> distinct (map href ?ha) \<and> distinct (map href ?hb) \<and>
     card (href ` set ?ha \<inter> href ` set ?hb) = 2"
    by (simp add: two_query_search_def href_def dict_get_def)
  from search_results_indexed [OF ret, of _ "''a''" "''b''" ?ha ?hb] pre
  have "map index (search_results two_query_search [''a'', ''b''] initial_state) = [1..8]"
    by blast
  moreover from this have "length (search_results two_query_search [''a'', ''b''] initial_state) = 8"
    using length_map [of index "search_results two_query_search [''a'', ''b''] initial_state"]
    by simp
  ultimately show ?thesis using ret by blast
qed




text \<open>
  C2, amended. \<^verbatim>\<open>fetch_specific_page\<close> always ends with the process stopped, and so does
  every \<^verbatim>\<open>fetch_pages\<close> call that reached its fetch; a refused \<^verbatim>\<open>fetch_pages\<close> call
  leaves the state as it was or stops the process. A search that passed the validation of
  its queries and then failed ends with the process stopped; a search that returns leaves
  it running. After any sequence of calls from the initial state, if the process runs then
  the flag is cleared and the state is the one that some returned search of the sequence
  left: every later call was refused without a change.
\<close>

theorem session_stopped_after_calls:
  "\<not> is_tor_running (snd (fetch_specific_page e' f u s)) \<and>
   (accepted (fetch_pages k now f xs s) \<longrightarrow> \<not> is_tor_running (snd (fetch_pages k now f xs s))) \<and>
   (snd (fetch_pages k now f xs s) = s \<or> \<not> is_tor_running (snd (fetch_pages k now f xs s))) \<and>
   (qs \<noteq> [] \<and> length qs \<le> 3 \<and> \<not> returned (get_sources e qs s)
      \<longrightarrow> \<not> is_tor_running (snd (get_sources e qs s))) \<and>
   (returned (get_sources e qs s) \<longrightarrow> is_tor_running (snd (get_sources e qs s))) \<and>
   (is_tor_running (run k cs initial_state) \<longrightarrow>
      \<not> fetch_pages_called (run k cs initial_state) \<and>
      (\<exists>pre e1 qs1 post. cs = pre @ Search e1 qs1 # post \<and>
         returned (get_sources e1 qs1 (run k pre initial_state)) \<and>
         run k cs initial_state = snd (get_sources e1 qs1 (run k pre initial_state))))"
proof -
  have init: "\<not> is_tor_running initial_state"
    by (simp add: initial_state_def is_tor_running_def)
  have tr: "\<not> fetch_pages_called (run k cs initial_state) \<and>
      (\<exists>pre e qs post. cs = pre @ Search e qs # post \<and>
         returned (get_sources e qs (run k pre initial_state)) \<and>
         run k cs initial_state = snd (get_sources e qs (run k pre initial_state)))"
    if "is_tor_running (run k cs initial_state)"
  proof -
    from running_after_run [OF init that] obtain pre e qs post where
      *: "cs = pre @ Search e qs # post" "returned (get_sources e qs (run k pre initial_state))"
      "run k cs initial_state = snd (get_sources e qs (run k pre initial_state))" by blast
    with returned_flag [of e qs "run k pre initial_state"]
    have "\<not> fetch_pages_called (run k cs initial_state)" by simp
    with * show ?thesis by blast
  qed
  from tr fetch_specific_page_stops accepted_stops fetch_pages_snd failed_search_stops returned_flag
  show ?thesis by blast
qed

text \<open>
  A search refused for its empty query list raises while the process started by the search
  before it keeps running.
\<close>

theorem session_stopped_after_calls_counterexample:
  "get_sources sample_search [''q''] initial_state
     = (Inr [(''q'', last_search_results searched_state)], searched_state) \<and>
   get_sources sample_search [] searched_state = (Inl At_least_one_query, searched_state) \<and>
   is_tor_running searched_state"
  using sample_search_run by (simp add: get_sources_def searched_state_def is_tor_running_def)

theorem session_stopped_after_calls_witness:
  "\<not> is_tor_running (snd (fetch_specific_page sample_start sample_fetch ''http://a'' searched_state)) \<and>
   accepted (fetch_pages 120 150 sample_fetch [1] searched_state) \<and>
   \<not> is_tor_running (snd (fetch_pages 120 150 sample_fetch [1] searched_state)) \<and>
   is_tor_running (run 120 [Search sample_search [''q''], Search sample_search []] initial_state) \<and>
   \<not> fetch_pages_called
       (run 120 [Search sample_search [''q''], Search sample_search []] initial_state)"
proof -
  have acc: "accepted (fetch_pages 120 150 sample_fetch [1] searched_state)"
    by (simp add: sample_defs op_defs)
  have rej: "get_sources sample_search [] searched_state
      = (Inl At_least_one_query, searched_state)"
    by (simp add: get_sources_def)
  have runs: "run 120 [Search sample_search [''q''], Search sample_search []] initial_state
      = searched_state"
    by (simp add: sample_search_run rej)
  have on: "is_tor_running searched_state"
    by (simp add: searched_state_def is_tor_running_def)
  show ?thesis
    using acc on
      session_stopped_after_calls [of sample_start sample_fetch "''http://a''" searched_state
        120 150 "[1]" "[''q'']" sample_search
        "[Search sample_search [''q''], Search sample_search []]"]
    unfolding runs by blast
qed

text \<open>
  C9. A search that returns stores an empty result set exactly when the provider returned
  no hit at all. After such a search every \<^verbatim>\<open>fetch_pages\<close> call, and every one after it,
  is refused with the error of a missing search and changes nothing, as in the initial
  state.
\<close>

theorem zero_result_generation:
  "(returned (get_sources e qs s) \<longrightarrow>
      (search_results e qs s = [] \<longleftrightarrow> search_hits e qs = [])) \<and>
   (returned (get_sources e qs s) \<and> search_results e qs s = [] \<and>
    list_all is_fetch_by_index cs \<longrightarrow>
      fetch_pages k now f xs (run k cs (snd (get_sources e qs s)))
        = (Inl No_search_results, snd (get_sources e qs s))) \<and>
   fetch_pages k now f xs initial_state = (Inl No_search_results, initial_state)"
proof (intro conjI impI)
  assume "returned (get_sources e qs s)"
  then show "search_results e qs s = [] \<longleftrightarrow> search_hits e qs = []"
    by (rule results_empty_iff)
next
  assume a: "returned (get_sources e qs s) \<and> search_results e qs s = [] \<and>
    list_all is_fetch_by_index cs"
  then have e: "last_search_results (snd (get_sources e qs s)) = []"
    by (simp add: search_results_def)
  with a have "run k cs (snd (get_sources e qs s)) = snd (get_sources e qs s)"
    by (simp add: fetch_only_keeps_empty)
  with e show "fetch_pages k now f xs (run k cs (snd (get_sources e qs s)))
        = (Inl No_search_results, snd (get_sources e qs s))"
    by (simp add: fetch_pages_cases)
next
  show "fetch_pages k now f xs initial_state = (Inl No_search_results, initial_state)"
    by (simp add: fetch_pages_cases initial_state_def)
qed

theorem zero_result_generation_witness:
  "returned (get_sources empty_search [''q''] initial_state) \<and>
   search_results empty_search [''q''] initial_state = [] \<and>
   is_tor_running (snd (get_sources empty_search [''q''] initial_state)) \<and>
   fetch_pages 120 150 sample_fetch [1]
     (run 120 [Fetch_by_index 140 sample_fetch [1]] (snd (get_sources empty_search [''q''] initial_state)))
     = (Inl No_search_results, snd (get_sources empty_search [''q''] initial_state))"
proof -
  have ret: "returned (get_sources empty_search [''q''] initial_state)"
    by (simp add: empty_search_def sample_defs op_defs returned_def)
  have hits: "search_hits empty_search [''q''] = []"
    by (simp add: search_hits_def empty_search_def)
  have fs: "list_all is_fetch_by_index [Fetch_by_index 140 sample_fetch [1]]"
    by (simp add: is_fetch_by_index_def)
  have on: "is_tor_running (snd (get_sources empty_search [''q''] initial_state))"
    by (simp add: empty_search_def sample_defs op_defs)
  show ?thesis
    using ret hits fs on
      zero_result_generation [of empty_search "[''q'']" initial_state
        "[Fetch_by_index 140 sample_fetch [1]]" 120 150 sample_fetch "[1]"]
    by blast
qed

text \<open>
  C10. With a result set, the flag cleared and the session alive, a request with no index
  is refused with the error of no URL and the state, the flag included, is as before, so
  that a later valid request is accepted. A non-empty list of valid indexes always
  resolves to some URL. A repeated index adds nothing to the URLs, and the URLs of a
  request against the result set of a search are distinct.
\<close>

theorem empty_request_keeps_generation:
  "(last_search_results s \<noteq> [] \<and> \<not> fetch_pages_called s \<and> fst (check_tor_timeout k now s)
      \<longrightarrow> fetch_pages k now f [] s = (Inl No_valid_urls, s)) \<and>
   (last_search_results s \<noteq> [] \<and> \<not> fetch_pages_called s \<and> fst (check_tor_timeout k now s) \<and>
    fst (check_tor_timeout k now' s) \<and>
    xs \<noteq> [] \<and> length xs \<le> 5 \<and> set xs \<subseteq> valid_indexes (last_search_results s)
      \<longrightarrow> accepted (fetch_pages k now' f' xs (snd (fetch_pages k now f [] s)))) \<and>
   (xs \<noteq> [] \<and> set xs \<subseteq> valid_indexes rs \<longrightarrow> urls_to_fetch rs xs \<noteq> []) \<and>
   urls_to_fetch rs (remdups xs) = urls_to_fetch rs xs \<and>
   (distinct (map url rs) \<longrightarrow> distinct (urls_to_fetch rs xs)) \<and>
   (returned (get_sources e qs s0) \<longrightarrow> distinct (urls_to_fetch (search_results e qs s0) xs))"
proof (intro conjI impI)
  assume "last_search_results s \<noteq> [] \<and> \<not> fetch_pages_called s \<and> fst (check_tor_timeout k now s)"
  then show "fetch_pages k now f [] s = (Inl No_valid_urls, s)"
    by (simp add: fetch_pages_cases)
next
  assume a: "last_search_results s \<noteq> [] \<and> \<not> fetch_pages_called s \<and> fst (check_tor_timeout k now s) \<and>
    fst (check_tor_timeout k now' s) \<and>
    xs \<noteq> [] \<and> length xs \<le> 5 \<and> set xs \<subseteq> valid_indexes (last_search_results s)"
  then have "snd (fetch_pages k now f [] s) = s" by (simp add: fetch_pages_cases)
  with a show "accepted (fetch_pages k now' f' xs (snd (fetch_pages k now f [] s)))"
    by (simp add: fetch_pages_cases accepted_def rejection_def split: sum.splits)
next
  assume "xs \<noteq> [] \<and> set xs \<subseteq> valid_indexes rs"
  then show "urls_to_fetch rs xs \<noteq> []" by (simp add: urls_to_fetch_nonempty)
next
  show "urls_to_fetch rs (remdups xs) = urls_to_fetch rs xs" by (rule urls_to_fetch_remdups)
next
  assume "distinct (map url rs)"
  then show "distinct (urls_to_fetch rs xs)" by (rule distinct_urls_to_fetch)
next
  assume "returned (get_sources e qs s0)"
  then show "distinct (urls_to_fetch (search_results e qs s0) xs)"
    by (simp add: distinct_search_urls distinct_urls_to_fetch)
qed

theorem empty_request_keeps_generation_witness:
  "fetch_pages 120 150 sample_fetch [] searched_state = (Inl No_valid_urls, searched_state) \<and>
   accepted (fetch_pages 120 160 sample_fetch [2, 2, 1]
               (snd (fetch_pages 120 150 sample_fetch [] searched_state))) \<and>
   urls_to_fetch (last_search_results searched_state) [2, 2, 1] = [''http://a'', ''http://b'']"
proof -
  have pre: "last_search_results searched_state \<noteq> [] \<and> \<not> fetch_pages_called searched_state \<and>
    fst (check_tor_timeout 120 150 searched_state) \<and> fst (check_tor_timeout 120 160 searched_state) \<and>
    [2, 2, 1 :: int] \<noteq> [] \<and> length [2, 2, 1 :: int] \<le> 5 \<and>
    set [2, 2, 1] \<subseteq> valid_indexes (last_search_results searched_state)"
    by (simp add: sample_defs op_defs)
  have urls: "urls_to_fetch (last_search_results searched_state) [2, 2, 1]
      = [''http://a'', ''http://b'']"
    by (simp add: sample_defs op_defs)
  show ?thesis
    using pre urls
      empty_request_keeps_generation [of searched_state 120 150 sample_fetch 160 "[2, 2, 1]"
        sample_fetch "last_search_results searched_state" sample_search "[''q'']" initial_state]
    by blast
qed

text \<open>
  C3. For a bound of at least 1 the batch loop is the run over the consecutive batches of
  the URL list: the batches concatenate to the list, none is empty or longer than the
  bound, and five URLs under the bound 2 give batches of 2, 2 and 1. When the deadline has
  passed at the start of a batch, the loop ends there with every URL of that batch and of
  the later ones marked as timed out and with the driver's state untouched, so that no
  call was made for them; the mark passes the extraction unchanged.
\<close>

theorem batches_and_deadline:
  "0 < n \<longrightarrow>
     fetch_loop env n pt dl urls 0 (R, w) = run_batches env pt dl (batches n urls) (R, w) \<and>
     concat (batches n urls) = urls \<and>
     (\<forall>b\<in>set (batches n urls). b \<noteq> [] \<and> length b \<le> n) \<and>
     (n = 2 \<and> length urls = 5 \<longrightarrow> map length (batches n urls) = [2, 2, 1]) \<and>
     (deadline_exceeded dl w \<longrightarrow>
        run_batches env pt dl (b # bs) (R, w) = (Inr (mark_timeout (concat (b # bs)) R), w)) \<and>
     (i < length urls \<and> deadline_exceeded dl w \<longrightarrow>
        fetch_loop env n pt dl urls i (R, w) = (Inr (mark_timeout (drop i urls) R), w)) \<and>
     (\<forall>u\<in>set us.
        mark_timeout us R u = Some (Failure ''timeout'' ''Overall timeout reached'') \<and>
        extract_all ex (mark_timeout us R) u
          = Some (Failure ''timeout'' ''Overall timeout reached''))"
proof (intro impI conjI)
  assume n: "0 < n"
  show "fetch_loop env n pt dl urls 0 (R, w) = run_batches env pt dl (batches n urls) (R, w)"
    using fetch_loop_run_batches [OF n, of env pt dl urls 0 "(R, w)"] by simp
  show "concat (batches n urls) = urls" using n by (rule concat_batches)
  show "\<forall>b\<in>set (batches n urls). b \<noteq> [] \<and> length b \<le> n" using batches_sizes by blast
  show "map length (batches n urls) = [2, 2, 1]" if "n = 2 \<and> length urls = 5"
    using that by (simp add: batches_two_of_five)
  show "run_batches env pt dl (b # bs) (R, w) = (Inr (mark_timeout (concat (b # bs)) R), w)"
    if "deadline_exceeded dl w" using that by simp
  show "fetch_loop env n pt dl urls i (R, w) = (Inr (mark_timeout (drop i urls) R), w)"
    if "i < length urls \<and> deadline_exceeded dl w" using that n by (simp add: fetch_loop_deadline)
  show "\<forall>u\<in>set us.
        mark_timeout us R u = Some (Failure ''timeout'' ''Overall timeout reached'') \<and>
        extract_all ex (mark_timeout us R) u
          = Some (Failure ''timeout'' ''Overall timeout reached'')"
    by (simp add: mark_timeout_apply extract_all_Failure)
qed

theorem batches_and_deadline_witness:
  "map length (batches 2 five_urls) = [2, 2, 1] \<and>
   concat (batches 2 five_urls) = five_urls \<and>
   deadline_exceeded (Some 60) late_world \<and>
   fetch_loop calm_driver 2 10 (Some 60) five_urls 2 (Map.empty, late_world)
     = (Inr (mark_timeout [''c'', ''d'', ''e''] Map.empty), late_world) \<and>
   mark_timeout [''c'', ''d'', ''e''] Map.empty ''d''
     = Some (Failure ''timeout'' ''Overall timeout reached'')"
proof -
  have pre: "(0::nat) < 2" "(2::nat) = 2 \<and> length five_urls = 5"
    "2 < length five_urls \<and> deadline_exceeded (Some 60) late_world"
    "drop 2 five_urls = [''c'', ''d'', ''e'']" "''d'' \<in> set [''c'', ''d'', ''e'']"
    by (simp_all add: five_urls_def late_world_def launched_world_def deadline_exceeded_def)
  show ?thesis
    using pre batches_and_deadline [of 2 calm_driver 10 "Some 60" five_urls Map.empty late_world
        "[]" "[]" 2 "[''c'', ''d'', ''e'']" "\<lambda>html u. Some html"]
    by simp
qed




end
